theory Spec2Isabelle
  imports Main "HOL-Library.AList" "HOL-Library.Multiset"
begin

section \<open>Braided: dependency-ordered start and halt of resources\<close>

text \<open>
  A shallow embedding of the orchestration core of the TypeScript library:
  \<^item> \<open>normalizeDependencies\<close> (src/src/dependencies.ts),
  \<^item> \<open>topologicalSort\<close> (the Kahn sorter of topological-sort.ts),
  \<^item> \<open>buildTopology\<close> (src/src/topology.ts),
  \<^item> \<open>startSystem\<close>, \<open>haltSystem\<close> and \<open>resolveDependencies\<close> (system.ts).

  A JavaScript object used as a dictionary (a \<^verbatim>\<open>Record\<close> keyed by strings) and a \<open>Map\<close>
  are association lists in the order in which their keys were first written: writing a
  key that is present keeps its place, writing a new key appends it (\<open>AList.update\<close>),
  and reading a key that was written is \<open>map_of\<close>. A \<open>Map\<close> and an array enumerate in
  that order. An object enumerates (\<open>Object.keys\<close>, \<open>Object.entries\<close>,
  \<open>Object.values\<close>) first its keys that are array indices, in ascending numeric order,
  and then its other keys in the order of writing: \<open>js_entries\<close>.

  A configuration is the list \<open>Object.entries(config)\<close>, so it comes in that enumeration
  order, and the dictionaries that are filled key by key from it (\<open>resources\<close>,
  \<open>inDegree\<close>, \<open>graph\<close>, \<open>dependents\<close>) enumerate as the configuration does. Its
  keys are distinct, which the properties assume as \<open>distinct (map fst config)\<close>.

  Reading a key that was never written gives \<open>undefined\<close>, unless \<open>Object.prototype\<close>
  defines the name (\<open>toString\<close>, \<open>constructor\<close>, ...): then the read gives the inherited
  value, which is truthy. The missing-dependency test of \<open>topologicalSort\<close> is such a read
  and is modelled with both cases. The name \<open>__proto__\<close>, writing which sets the prototype
  of an object and no property, is taken not to be a key of a configuration.
\<close>

type_synonym id = string

subsection \<open>JavaScript values and truthiness\<close>

text \<open>
  Instances, thrown values and errors are JavaScript values. \<open>JObj n\<close> is an opaque
  object, \<open>JError m c\<close> an \<open>Error\<close> with message \<open>m\<close> and cause \<open>c\<close>
  (\<open>JUndefined\<close> when no cause was set).
\<close>

datatype jsval =
    JUndefined
  | JNull
  | JBool bool
  | JNum int
  | JStr string
  | JObj nat
  | JError string jsval

fun truthy :: "jsval \<Rightarrow> bool" where
  "truthy JUndefined = False"
| "truthy JNull = False"
| "truthy (JBool b) = b"
| "truthy (JNum n) = (n \<noteq> 0)"
| "truthy (JStr s) = (s \<noteq> [])"
| "truthy (JObj n) = True"
| "truthy (JError m c) = True"

subsection \<open>Property names\<close>

text \<open>
  The property names that every object inherits from \<open>Object.prototype\<close>. Each of them
  reads as a function, except \<open>__proto__\<close>, which reads as the prototype object: a truthy
  value without a \<open>push\<close> method in every case.
\<close>

definition object_prototype_names :: "id list" where
  "object_prototype_names =
     [''constructor'', ''__defineGetter__'', ''__defineSetter__'', ''hasOwnProperty'',
      ''__lookupGetter__'', ''__lookupSetter__'', ''isPrototypeOf'', ''propertyIsEnumerable'',
      ''toString'', ''valueOf'', ''__proto__'', ''toLocaleString'']"

text \<open>
  An array index is the canonical decimal numeral of an integer from 0 to \<open>2\<^sup>3\<^sup>2 - 2\<close>:
  digits only, and no leading zero unless it is \<open>"0"\<close> itself.
\<close>

definition digit_value :: "char \<Rightarrow> int" where
  "digit_value c =
     (case map_of (zip ''0123456789'' [0, 1, 2, 3, 4, 5, 6, 7, 8, 9]) c of
        None \<Rightarrow> 0
      | Some n \<Rightarrow> n)"

definition index_value :: "id \<Rightarrow> int" where
  "index_value s = foldl (\<lambda>n c. 10 * n + digit_value c) 0 s"

definition is_array_index :: "id \<Rightarrow> bool" where
  "is_array_index s \<longleftrightarrow>
     s \<noteq> [] \<and> list_all (\<lambda>c. c \<in> set ''0123456789'') s
   \<and> (s = ''0'' \<or> hd s \<noteq> CHR ''0'') \<and> index_value s < 4294967295"

text \<open>
  \<open>Object.entries(obj)\<close> for an object whose keys were written in the order of the
  association list: the array indices in ascending numeric order, then the other keys in
  the order of writing. \<open>Object.keys\<close> and \<open>Object.values\<close> are its two projections.
\<close>

definition js_entries :: "(id \<times> 'a) list \<Rightarrow> (id \<times> 'a) list" where
  "js_entries obj =
     sort_key (\<lambda>p. index_value (fst p)) (filter (\<lambda>p. is_array_index (fst p)) obj)
     @ filter (\<lambda>p. \<not> is_array_index (fst p)) obj"

subsection \<open>Dependency specs and their normal form\<close>

text \<open>
  \<open>DependenciesSpec\<close> of resource.ts: an array of ids, or an object whose
  \<open>required\<close> and \<open>optional\<close> arrays may each be absent.
\<close>

datatype deps_spec =
    DepArray "id list"
  | DepObject "id list option" "id list option"

record normalized_dependencies =
  required :: "id list"
  optional :: "id list"
  all :: "id list"

text \<open>\<open>a ?? b\<close> on an array that may be absent.\<close>

fun nullish_or :: "'a option \<Rightarrow> 'a \<Rightarrow> 'a" where
  "nullish_or None d = d"
| "nullish_or (Some x) d = x"

text \<open>
  The loop of \<open>normalizeDependencies\<close> over \<open>[...required, ...optional]\<close>:
  \<open>seen\<close> is the set of ids met so far, \<open>acc\<close> the array \<open>all\<close> built so far.
\<close>

fun dedup_loop :: "id list \<Rightarrow> id set \<Rightarrow> id list \<Rightarrow> id list" where
  "dedup_loop [] seen acc = acc"
| "dedup_loop (x # xs) seen acc =
     (if x \<in> seen then dedup_loop xs seen acc
      else dedup_loop xs (insert x seen) (acc @ [x]))"

fun normalizeDependencies :: "deps_spec option \<Rightarrow> normalized_dependencies" where
  "normalizeDependencies None = \<lparr>required = [], optional = [], all = []\<rparr>"
| "normalizeDependencies (Some (DepArray ds)) =
     \<lparr>required = ds, optional = [], all = ds\<rparr>"
| "normalizeDependencies (Some (DepObject r p)) =
     (let req = nullish_or r []; opt = nullish_or p []
      in \<lparr>required = req, optional = opt, all = dedup_loop (req @ opt) {} []\<rparr>)"

text \<open>Keeping the first occurrence of every element of a list, in order.\<close>

fun first_occurrences :: "'a list \<Rightarrow> 'a list" where
  "first_occurrences [] = []"
| "first_occurrences (x # xs) = x # filter (\<lambda>y. y \<noteq> x) (first_occurrences xs)"

subsection \<open>Resources\<close>

text \<open>
  The operations of a resource are the caller's. An operation either returns or throws
  a value (a promise that is awaited either fulfils or rejects): \<open>Returns\<close> and
  \<open>Throws\<close>. The orchestrator awaits every call before the next, so a pass is a
  sequence of calls, recorded as \<open>event\<close>s in the order in which they are made.
\<close>

datatype 'a outcome = Returns 'a | Throws jsval

type_synonym deps_record = "(id \<times> jsval) list"

datatype event =
    AssertCall id deps_record
  | StartCall id deps_record
  | HaltCall id jsval

datatype status = Stopped | Starting | Started | Failed | Skipped | Halting

text \<open>
  \<open>ResourceConfig\<close> and \<open>Resource\<close> of resource.ts. \<open>Resource\<close> adds the fields
  \<open>_status\<close>, \<open>_instance\<close> and \<open>_error\<close>; an absent \<open>_instance\<close> or
  \<open>_error\<close> reads as \<open>undefined\<close>.
\<close>

record resource_config =
  dependencies :: "deps_spec option"
  assert :: "(deps_record \<Rightarrow> unit outcome) option"
  start :: "deps_record \<Rightarrow> jsval outcome"
  halt :: "jsval \<Rightarrow> unit outcome"

record resource = resource_config +
  r_status :: status
  r_instance :: jsval
  r_error :: jsval

subsection \<open>Errors thrown by the core\<close>

text \<open>
  \<open>MissingDependency i d\<close> and \<open>CircularDependency us\<close> are the two errors that
  \<open>topologicalSort\<close> constructs; \<open>TypeError\<close> is the one the JavaScript runtime
  throws (iterating a value that is not iterable, reading a property of
  \<open>undefined\<close>, calling \<open>push\<close> on a value that has no such method). \<open>message\<close>
  is the text of the error.
\<close>

datatype error =
    MissingDependency id id
  | CircularDependency "id list"
  | TypeError string

fun join :: "string list \<Rightarrow> string" where
  "join [] = []"
| "join [x] = x"
| "join (x # y # ys) = x @ '', '' @ join (y # ys)"

definition quoted :: "string \<Rightarrow> string" where
  "quoted s = [CHR 0x22] @ s @ [CHR 0x22]"

fun message :: "error \<Rightarrow> string" where
  "message (MissingDependency i d) =
     ''Resource '' @ quoted i @ '' depends on '' @ quoted d
       @ '' which doesn'' @ [CHR 0x27] @ ''t exist in the system config''"
| "message (CircularDependency us) =
     ''Circular dependency detected in resource system. Unprocessed resources: '' @ join us"
| "message (TypeError m) = m"

subsection \<open>The topological sorter\<close>

text \<open>
  \<open>for (const dep of resource.dependencies || [])\<close>: an absent spec iterates as the
  empty array, an array iterates its elements, and the object form is not iterable.
\<close>

fun iter_deps :: "deps_spec option \<Rightarrow> error + id list" where
  "iter_deps None = Inr []"
| "iter_deps (Some (DepArray ds)) = Inr ds"
| "iter_deps (Some (DepObject r p)) = Inl (TypeError ''resource.dependencies is not iterable'')"

type_synonym graph = "(id \<times> id list) list"
type_synonym in_degree = "(id \<times> int) list"

text \<open>
  The inner loop that adds the edges of resource \<open>i\<close>. \<open>graph[depId]\<close> is the array
  written for a key of \<open>graph\<close>; for another name it is \<open>undefined\<close>, and the
  missing-dependency error is thrown, unless the name is inherited: then the test
  \<open>!graph[depId]\<close> fails and \<open>graph[depId].push(id)\<close> throws a \<open>TypeError\<close>. For a
  key, \<open>i\<close> is pushed on \<open>graph[depId]\<close> and \<open>inDegree[i]\<close> becomes
  \<open>(inDegree[i] || 0) + 1\<close>.
\<close>

fun add_edges :: "id \<Rightarrow> id list \<Rightarrow> graph \<times> in_degree \<Rightarrow> error + (graph \<times> in_degree)" where
  "add_edges i [] st = Inr st"
| "add_edges i (d # ds) (g, deg) =
     (case map_of g d of
        None \<Rightarrow>
          if d \<in> set object_prototype_names
          then Inl (TypeError ''graph[depId].push is not a function'')
          else Inl (MissingDependency i d)
      | Some xs \<Rightarrow>
          add_edges i ds
            (AList.update d (xs @ [i]) g,
             AList.update i ((case map_of deg i of None \<Rightarrow> 0 | Some n \<Rightarrow> n) + 1) deg))"

fun build_edges ::
  "(id \<times> 'a resource_config_scheme) list \<Rightarrow> graph \<times> in_degree \<Rightarrow> error + (graph \<times> in_degree)" where
  "build_edges [] st = Inr st"
| "build_edges ((i, r) # rs) st =
     (case iter_deps (dependencies r) of
        Inl e \<Rightarrow> Inl e
      | Inr ds \<Rightarrow>
          (case add_edges i ds st of
             Inl e \<Rightarrow> Inl e
           | Inr st' \<Rightarrow> build_edges rs st'))"

text \<open>
  The loop over \<open>graph[id]\<close> inside the \<open>while\<close>: the in-degree of each dependent
  goes down by one, and a dependent whose in-degree reaches zero is pushed on the queue.
  (A dependent with no in-degree entry would get \<open>NaN\<close> and never be pushed.)
\<close>

fun release :: "id list \<Rightarrow> in_degree \<times> id list \<Rightarrow> in_degree \<times> id list" where
  "release [] st = st"
| "release (d # ds) (deg, q) =
     (case map_of deg d of
        None \<Rightarrow> release ds (deg, q)
      | Some n \<Rightarrow> release ds (AList.update d (n - 1) deg, if n - 1 = 0 then q @ [d] else q))"

text \<open>The number of in-degree entries that are still positive.\<close>

definition pending :: "in_degree \<Rightarrow> nat" where
  "pending deg = length (filter (\<lambda>p. 0 < snd p) deg)"

lemma pending_update:
  "map_of deg d = Some n \<Longrightarrow>
   pending (AList.update d m deg) + (if 0 < n then 1 else 0)
     = pending deg + (if 0 < m then 1 else 0)"
  by (induction deg) (auto simp: pending_def split: if_splits)

lemma release_measure:
  "release ds (deg, q) = (deg', q') \<Longrightarrow> length q' + pending deg' \<le> length q + pending deg"
proof (induction ds arbitrary: deg q)
  case Nil
  then show ?case by simp
next
  case (Cons d ds)
  show ?case
  proof (cases "map_of deg d")
    case None
    with Cons show ?thesis by simp
  next
    case (Some n)
    let ?deg = "AList.update d (n - 1) deg"
    let ?q = "if n - 1 = 0 then q @ [d] else q"
    from Cons.prems Some have "release ds (?deg, ?q) = (deg', q')" by simp
    then have "length q' + pending deg' \<le> length ?q + pending ?deg"
      by (rule Cons.IH)
    moreover have "length ?q + pending ?deg \<le> length q + pending deg"
    proof (cases "n = 1")
      case True
      with pending_update [OF Some, of 0] show ?thesis by simp
    next
      case False
      with pending_update [OF Some, of "n - 1"] show ?thesis by (auto split: if_splits)
    qed
    ultimately show ?thesis by linarith
  qed
qed

text \<open>
  The \<open>while (queue.length > 0)\<close> loop: \<open>queue.shift()\<close>, \<open>result.push(id)\<close>,
  then the loop over \<open>graph[id]\<close>. Reading \<open>graph[id]\<close> for an id that is no key
  gives \<open>undefined\<close>, which cannot be iterated.
\<close>

function kahn_loop :: "graph \<Rightarrow> in_degree \<Rightarrow> id list \<Rightarrow> id list \<Rightarrow> error + id list" where
  "kahn_loop g deg [] res = Inr res"
| "kahn_loop g deg (i # q) res =
     (case map_of g i of
        None \<Rightarrow> Inl (TypeError ''graph[id] is not iterable'')
      | Some ds \<Rightarrow>
          (case release ds (deg, q) of
             (deg', q') \<Rightarrow> kahn_loop g deg' q' (res @ [i])))"
  by pat_completeness auto
termination
  apply (relation "measure (\<lambda>(g, deg, q, res). length q + pending deg)")
   apply simp
  apply (auto dest!: sym [of "(_, _)" "release _ _"] dest: release_measure)
  done

text \<open>
  \<open>topologicalSort\<close>: both dictionaries get an entry per key of \<open>resources\<close>, the
  edges are added, the queue starts with the ids of in-degree zero in the order of
  \<open>Object.entries(inDegree)\<close>, and a result shorter than the key list is a cycle.
\<close>

definition topologicalSort :: "(id \<times> 'a resource_config_scheme) list \<Rightarrow> error + id list" where
  "topologicalSort resources =
     (let keys = map fst resources in
      case build_edges resources (map (\<lambda>i. (i, [])) keys, map (\<lambda>i. (i, 0)) keys) of
        Inl e \<Rightarrow> Inl e
      | Inr (g, deg) \<Rightarrow>
          (case kahn_loop g deg (map fst (filter (\<lambda>p. snd p = 0) deg)) [] of
             Inl e \<Rightarrow> Inl e
           | Inr res \<Rightarrow>
               if length res \<noteq> length keys
               then Inl (CircularDependency (filter (\<lambda>i. i \<notin> set res) keys))
               else Inr res))"

subsection \<open>The topology builder\<close>

text \<open>
  Depths are JavaScript numbers. \<open>Math.max\<close> of no argument is \<open>-Infinity\<close>, and
  \<open>Math.max\<close> with an \<open>undefined\<close> argument (the depth of an id that has none
  yet) is \<open>NaN\<close>; adding one to either leaves it as it is.
\<close>

datatype jsnum = Num nat | NaN | NegInfinity

fun js_max2 :: "jsnum \<Rightarrow> jsnum \<Rightarrow> jsnum" where
  "js_max2 NaN y = NaN"
| "js_max2 x NaN = NaN"
| "js_max2 NegInfinity y = y"
| "js_max2 x NegInfinity = x"
| "js_max2 (Num a) (Num b) = Num (max a b)"

definition js_max :: "jsnum list \<Rightarrow> jsnum" where
  "js_max xs = foldr js_max2 xs NegInfinity"

fun js_succ :: "jsnum \<Rightarrow> jsnum" where
  "js_succ (Num n) = Num (n + 1)"
| "js_succ NaN = NaN"
| "js_succ NegInfinity = NegInfinity"

record topology_node =
  node_id :: id
  node_dependencies :: "id list"
  node_dependents :: "id list"
  node_depth :: nat

record topology_layer =
  layer_depth :: nat
  layer_resources :: "topology_node list"

record system_topology =
  layers :: "topology_layer list"
  graph :: "(id \<times> id list) list"
  dependents :: "(id \<times> id list) list"
  depths :: "(id \<times> jsnum) list"
  totalResources :: nat
  maxDepth :: jsnum
  startupOrder :: "id list"
  shutdownOrder :: "id list"

text \<open>\<open>graph[id] = [...(resources[id].dependencies || [])]\<close> for every key.\<close>

fun forward_graph :: "(id \<times> 'a resource_config_scheme) list \<Rightarrow> error + graph" where
  "forward_graph [] = Inr []"
| "forward_graph ((i, r) # rs) =
     (case iter_deps (dependencies r) of
        Inl e \<Rightarrow> Inl e
      | Inr ds \<Rightarrow>
          (case forward_graph rs of
             Inl e \<Rightarrow> Inl e
           | Inr g \<Rightarrow> Inr ((i, ds) # g)))"

text \<open>
  \<open>dependents[dep].push(id)\<close> for every dependency of every entry of \<open>graph\<close>. For a
  dependency that is no key of \<open>dependents\<close> the call throws a \<open>TypeError\<close>, on
  \<open>undefined\<close> or on the inherited value.
\<close>

fun push_dependents :: "id \<Rightarrow> id list \<Rightarrow> graph \<Rightarrow> error + graph" where
  "push_dependents i [] dp = Inr dp"
| "push_dependents i (d # ds) dp =
     (case map_of dp d of
        None \<Rightarrow>
          Inl (TypeError (if d \<in> set object_prototype_names
                          then ''dependents[dep].push is not a function''
                          else ''dependents[dep] is undefined''))
      | Some xs \<Rightarrow> push_dependents i ds (AList.update d (xs @ [i]) dp))"

fun reverse_graph :: "graph \<Rightarrow> graph \<Rightarrow> error + graph" where
  "reverse_graph [] dp = Inr dp"
| "reverse_graph ((i, ds) # g) dp =
     (case push_dependents i ds dp of
        Inl e \<Rightarrow> Inl e
      | Inr dp' \<Rightarrow> reverse_graph g dp')"

text \<open>
  The depth loop over \<open>order\<close>: \<open>depths[id]\<close> is 0 when \<open>graph[id]\<close> is empty and
  \<open>Math.max(...deps.map((dep) => depths[dep])) + 1\<close> otherwise. \<open>order\<close> lists keys
  of \<open>resources\<close>, as the order that \<open>startSystem\<close> passes does; for an id that is
  no key, \<open>graph[id]\<close> is \<open>undefined\<close> and reading its \<open>length\<close> throws.
\<close>

definition depth_read :: "(id \<times> jsnum) list \<Rightarrow> id \<Rightarrow> jsnum" where
  "depth_read ds d = (case map_of ds d of None \<Rightarrow> NaN | Some v \<Rightarrow> v)"

fun depth_loop :: "graph \<Rightarrow> id list \<Rightarrow> (id \<times> jsnum) list \<Rightarrow> error + (id \<times> jsnum) list" where
  "depth_loop g [] ds = Inr ds"
| "depth_loop g (i # order) ds =
     (case map_of g i of
        None \<Rightarrow> Inl (TypeError ''deps is undefined'')
      | Some deps \<Rightarrow>
          depth_loop g order
            (AList.update i
               (if deps = [] then Num 0 else js_succ (js_max (map (depth_read ds) deps))) ds))"

text \<open>
  One layer: the entries of \<open>depths\<close> whose depth is \<open>k\<close>, in the order of
  \<open>Object.entries(depths)\<close>, which is not the order in which the depth loop wrote them
  when an id is an array index. Every key of \<open>depths\<close> is a key of \<open>graph\<close> and of
  \<open>dependents\<close> (the depth loop has read \<open>graph[id]\<close>), so both reads find a list.
\<close>

definition list_read :: "graph \<Rightarrow> id \<Rightarrow> id list" where
  "list_read g i = (case map_of g i of None \<Rightarrow> [] | Some xs \<Rightarrow> xs)"

definition layer_at :: "graph \<Rightarrow> graph \<Rightarrow> (id \<times> jsnum) list \<Rightarrow> nat \<Rightarrow> topology_layer" where
  "layer_at g dp ds k =
     \<lparr>layer_depth = k,
      layer_resources =
        map (\<lambda>p. \<lparr>node_id = fst p, node_dependencies = list_read g (fst p),
                   node_dependents = list_read dp (fst p), node_depth = k\<rparr>)
            (filter (\<lambda>p. snd p = Num k) (js_entries ds))\<rparr>"

text \<open>\<open>for (let depth = 0; depth <= maxDepth; depth++)\<close>: no round when \<open>maxDepth\<close> is no number.\<close>

fun depth_range :: "jsnum \<Rightarrow> nat list" where
  "depth_range (Num m) = [0..<Suc m]"
| "depth_range NaN = []"
| "depth_range NegInfinity = []"

definition buildTopology ::
  "(id \<times> 'a resource_config_scheme) list \<Rightarrow> id list \<Rightarrow> error + system_topology" where
  "buildTopology resources order =
     (case forward_graph resources of
        Inl e \<Rightarrow> Inl e
      | Inr g \<Rightarrow>
          (case reverse_graph g (map (\<lambda>i. (i, [])) (map fst resources)) of
             Inl e \<Rightarrow> Inl e
           | Inr dp \<Rightarrow>
               (case depth_loop g order [] of
                  Inl e \<Rightarrow> Inl e
                | Inr ds \<Rightarrow>
                    (let m = (if ds \<noteq> [] then js_max (map snd (js_entries ds)) else Num 0)
                     in Inr \<lparr>layers = map (layer_at g dp ds) (depth_range m),
                             graph = g,
                             dependents = dp,
                             depths = ds,
                             totalResources = length resources,
                             maxDepth = m,
                             startupOrder = order,
                             shutdownOrder = rev order\<rparr>))))"

subsection \<open>The orchestrator\<close>

text \<open>
  The state of a pass: the resources with their runtime fields, the record \<open>started\<close>
  (returned as \<open>system\<close> by a start pass), the \<open>errors\<close> map, and the calls made so
  far. A pass that throws gives \<open>Inl\<close> of the error and of the calls made before it.
\<close>

record run_state =
  resources :: "(id \<times> resource) list"
  started :: "(id \<times> jsval) list"
  errors :: "(id \<times> jsval) list"
  calls :: "event list"

record start_result = run_state +
  topology :: system_topology

definition thrown :: "error \<Rightarrow> jsval" where
  "thrown e = JError (message e) JUndefined"

definition js_read :: "(id \<times> jsval) list \<Rightarrow> id \<Rightarrow> jsval" where
  "js_read obj k = (case map_of obj k of None \<Rightarrow> JUndefined | Some v \<Rightarrow> v)"

text \<open>\<open>resolveDependencies\<close>: \<open>deps[depId] = started[depId]\<close> for every declared id.\<close>

definition resolveDependencies :: "'a resource_config_scheme \<Rightarrow> (id \<times> jsval) list \<Rightarrow> error + deps_record" where
  "resolveDependencies resource st =
     (case iter_deps (dependencies resource) of
        Inl e \<Rightarrow> Inl e
      | Inr ds \<Rightarrow> Inr (foldl (\<lambda>deps d. AList.update d (js_read st d) deps) [] ds))"

text \<open>The \<open>catch\<close> block of the start loop.\<close>

definition start_failed :: "id \<Rightarrow> resource \<Rightarrow> jsval \<Rightarrow> event list \<Rightarrow> run_state \<Rightarrow> run_state" where
  "start_failed i r err cs s =
     \<lparr>resources = AList.update i (r\<lparr>r_status := Failed, r_error := err\<rparr>) (resources s),
      started = AList.update i JUndefined (started s),
      errors = AList.update i err (errors s),
      calls = cs\<rparr>"

text \<open>
  One round of the start loop for \<open>id\<close>. \<open>errorDetected\<close> is \<open>null\<close> when there is
  no assertion or it returns, and the thrown value otherwise; the wrapper error is
  thrown when \<open>errorDetected\<close> is truthy.
\<close>

definition invalid_dependencies :: "id \<Rightarrow> jsval \<Rightarrow> jsval" where
  "invalid_dependencies i cause = JError (''Invalid dependencies for resource '' @ quoted i) cause"

definition start_step :: "id \<Rightarrow> resource \<Rightarrow> run_state \<Rightarrow> run_state" where
  "start_step i r0 s =
     (let r = r0\<lparr>r_status := Starting\<rparr> in
      case resolveDependencies r (started s) of
        Inl e \<Rightarrow> start_failed i r (thrown e) (calls s) s
      | Inr deps \<Rightarrow>
          (let errorDetected =
                 (case assert r of
                    None \<Rightarrow> JNull
                  | Some f \<Rightarrow> (case f deps of Returns u \<Rightarrow> JNull | Throws e \<Rightarrow> e));
               cs = (case assert r of
                       None \<Rightarrow> calls s
                     | Some f \<Rightarrow> calls s @ [AssertCall i deps])
           in if truthy errorDetected
              then start_failed i r (invalid_dependencies i errorDetected) cs s
              else (case start r deps of
                      Throws e \<Rightarrow> start_failed i r e (cs @ [StartCall i deps]) s
                    | Returns inst \<Rightarrow>
                        \<lparr>resources =
                           AList.update i (r\<lparr>r_instance := inst, r_status := Started\<rparr>)
                             (resources s),
                         started = AList.update i inst (started s),
                         errors = errors s,
                         calls = cs @ [StartCall i deps]\<rparr>)))"

text \<open>
  \<open>for (const id of order)\<close>. An id that is no key of \<open>resources\<close> reads as
  \<open>undefined\<close>, and writing its \<open>_status\<close> throws in the \<open>try\<close> and again in the
  \<open>catch\<close>, which ends the pass.
\<close>

fun start_loop :: "id list \<Rightarrow> run_state \<Rightarrow> error \<times> event list + run_state" where
  "start_loop [] s = Inr s"
| "start_loop (i # order) s =
     (case map_of (resources s) i of
        None \<Rightarrow> Inl (TypeError ''resource is undefined'', calls s)
      | Some r \<Rightarrow> start_loop order (start_step i r s))"

definition as_resource :: "status \<Rightarrow> jsval \<Rightarrow> resource_config \<Rightarrow> resource" where
  "as_resource st inst c =
     \<lparr>dependencies = dependencies c, assert = assert c, start = start c, halt = halt c,
      r_status = st, r_instance = inst, r_error = JUndefined\<rparr>"

definition startSystem :: "(id \<times> resource_config) list \<Rightarrow> error \<times> event list + start_result" where
  "startSystem config =
     (let rs = map (\<lambda>p. (fst p, as_resource Stopped JUndefined (snd p))) config in
      case topologicalSort rs of
        Inl e \<Rightarrow> Inl (e, [])
      | Inr order \<Rightarrow>
          (case buildTopology rs order of
             Inl e \<Rightarrow> Inl (e, [])
           | Inr t \<Rightarrow>
               (case start_loop order \<lparr>resources = rs, started = [], errors = [], calls = []\<rparr> of
                  Inl e \<Rightarrow> Inl e
                | Inr s \<Rightarrow> Inr (run_state.extend s (start_result.fields t)))))"




subsection \<open>Vocabulary of the properties\<close>

text \<open>
  The dependency ids that the loops of \<open>topologicalSort\<close> and \<open>buildTopology\<close> iterate
  for a resource whose dependencies are an array (or absent); \<open>array_form\<close> says that
  no resource of the configuration uses the object form, \<open>deps_exist\<close> that every
  declared dependency is an id of the configuration.
\<close>

definition deps_of :: "'a resource_config_scheme \<Rightarrow> id list" where
  "deps_of r = (case dependencies r of Some (DepArray ds) \<Rightarrow> ds | _ \<Rightarrow> [])"

definition array_form :: "(id \<times> 'a resource_config_scheme) list \<Rightarrow> bool" where
  "array_form rs = list_all (\<lambda>p. iter_deps (dependencies (snd p)) = Inr (deps_of (snd p))) rs"

definition deps_exist :: "(id \<times> 'a resource_config_scheme) list \<Rightarrow> bool" where
  "deps_exist rs = list_all (\<lambda>p. list_all (\<lambda>d. d \<in> set (map fst rs)) (deps_of (snd p))) rs"

definition deps_at :: "(id \<times> 'a resource_config_scheme) list \<Rightarrow> id \<Rightarrow> id list" where
  "deps_at rs i = (case map_of rs i of None \<Rightarrow> [] | Some r \<Rightarrow> deps_of r)"

text \<open>
  The dependency graph: an edge \<open>(d, i)\<close> for every dependency \<open>d\<close> that resource
  \<open>i\<close> declares. An id is \<open>blocked\<close> when it lies on a cycle or depends, directly
  or through other resources, on an id that does.
\<close>

definition dep_edges :: "(id \<times> 'a resource_config_scheme) list \<Rightarrow> (id \<times> id) set" where
  "dep_edges rs = set (concat (map (\<lambda>p. map (\<lambda>d. (d, fst p)) (deps_of (snd p))) rs))"

definition blocked :: "(id \<times> id) set \<Rightarrow> id set" where
  "blocked E = {i. \<exists>c. (c, c) \<in> E\<^sup>+ \<and> (c, i) \<in> E\<^sup>*}"

text \<open>
  The position of an element in a list (the length of the list when it is absent), and
  the dependency among \<open>ds\<close> that stands last in \<open>order\<close>: the one whose placement
  makes a resource with dependencies \<open>ds\<close> ready.
\<close>

fun index_of :: "'a list \<Rightarrow> 'a \<Rightarrow> nat" where
  "index_of [] a = 0"
| "index_of (x # xs) a = (if x = a then 0 else Suc (index_of xs a))"









text \<open>The status of every resource at the end of a pass.\<close>

definition statuses :: "'a run_state_scheme \<Rightarrow> (id \<times> status) list" where
  "statuses s = map (\<lambda>p. (fst p, r_status (snd p))) (resources s)"

subsection \<open>Notions used in the proofs\<close>

text \<open>
  The error that the edge loop of \<open>topologicalSort\<close> throws for resource \<open>i\<close> at a
  dependency \<open>d\<close> that is no key of \<open>graph\<close>.
\<close>

definition absent_dependency :: "id \<Rightarrow> id \<Rightarrow> error" where
  "absent_dependency i d =
     (if d \<in> set object_prototype_names
      then TypeError ''graph[depId].push is not a function''
      else MissingDependency i d)"

text \<open>
  What the edge loop of \<open>topologicalSort\<close> leaves in \<open>graph[d]\<close> and \<open>inDegree[j]\<close>,
  first over the entries of the configuration, then over its key list \<open>K\<close> and the
  function \<open>D\<close> from ids to dependency lists.
\<close>

definition dependents_in :: "(id \<times> 'a resource_config_scheme) list \<Rightarrow> id \<Rightarrow> id list" where
  "dependents_in rs d = concat (map (\<lambda>p. replicate (count_list (deps_of (snd p)) d) (fst p)) rs)"

definition degree_in :: "(id \<times> 'a resource_config_scheme) list \<Rightarrow> id \<Rightarrow> int" where
  "degree_in rs j = int (sum_list (map (\<lambda>p. if fst p = j then length (deps_of (snd p)) else 0) rs))"

definition dependents_list :: "id list \<Rightarrow> (id \<Rightarrow> id list) \<Rightarrow> id \<Rightarrow> id list" where
  "dependents_list K D n = concat (map (\<lambda>i. replicate (count_list (D i) n) i) K)"

text \<open>
  The invariant of the \<open>while\<close> loop of \<open>topologicalSort\<close>, for queue \<open>q\<close> and result
  \<open>res\<close>: the in-degree of an id counts its dependencies that are not in \<open>res\<close> yet;
  an id is in \<open>res\<close> or \<open>q\<close> exactly when all its dependencies are in \<open>res\<close>; every
  id of \<open>res\<close> stands after its dependencies; and \<open>res\<close> followed by \<open>q\<close> is the
  list of ids without dependencies followed, for every id \<open>n\<close> of \<open>res\<close> in turn,
  by the ids whose last dependency in \<open>res\<close> is \<open>n\<close> (\<open>block\<close>), each group in
  declaration order. \<open>kahn_final\<close> is what is left of it when the queue is empty.
\<close>

definition block :: "id list \<Rightarrow> (id \<Rightarrow> id list) \<Rightarrow> id list \<Rightarrow> id \<Rightarrow> id list" where
  "block K D res n =
     filter (\<lambda>i. D i \<noteq> [] \<and> set (D i) \<subseteq> set res
                \<and> last (filter (\<lambda>m. m \<in> set (D i)) res) = n) K"

definition kahn_inv :: "id list \<Rightarrow> (id \<Rightarrow> id list) \<Rightarrow> in_degree \<Rightarrow> id list \<Rightarrow> id list \<Rightarrow> bool" where
  "kahn_inv K D deg q res \<longleftrightarrow>
     distinct (res @ q) \<and> set (res @ q) \<subseteq> set K
   \<and> (\<forall>i\<in>set K. map_of deg i = Some (int (length (filter (\<lambda>d. d \<notin> set res) (D i)))))
   \<and> (\<forall>i\<in>set K. (i \<in> set (res @ q)) = (set (D i) \<subseteq> set res))
   \<and> (\<forall>ys i zs. res = ys @ i # zs \<longrightarrow> set (D i) \<subseteq> set ys)
   \<and> res @ q = filter (\<lambda>i. D i = []) K @ concat (map (block K D res) res)"

definition kahn_final :: "id list \<Rightarrow> (id \<Rightarrow> id list) \<Rightarrow> id list \<Rightarrow> bool" where
  "kahn_final K D res \<longleftrightarrow>
     distinct res \<and> set res \<subseteq> set K
   \<and> (\<forall>i\<in>set K. (i \<in> set res) = (set (D i) \<subseteq> set res))
   \<and> (\<forall>ys i zs. res = ys @ i # zs \<longrightarrow> set (D i) \<subseteq> set ys)
   \<and> res = filter (\<lambda>i. D i = []) K @ concat (map (block K D res) res)"




subsection \<open>Example configurations\<close>

text \<open>
  \<open>plain ds v\<close> is a resource that requires the ids \<open>ds\<close>, has no assertion, starts
  with the instance \<open>v\<close> and halts without error. \<open>diamond\<close> is Scenario D of the
  specification.
\<close>

definition plain :: "id list \<Rightarrow> jsval \<Rightarrow> resource_config" where
  "plain ds v =
     \<lparr>dependencies = Some (DepArray ds), assert = None,
      start = (\<lambda>deps. Returns v), halt = (\<lambda>inst. Returns ())\<rparr>"


text \<open>
  Two resources without dependencies and one dependent of each, declared crosswise:
  \<open>c\<close> requires \<open>b\<close> and \<open>d\<close> requires \<open>a\<close>.
\<close>

definition crossing :: "(id \<times> resource_config) list" where
  "crossing =
     [(''a'', plain [] (JObj 0)), (''b'', plain [] (JObj 1)),
      (''c'', plain [''b''] (JObj 2)), (''d'', plain [''a''] (JObj 3))]"


text \<open>
  A resource that requires an id the configuration lacks; one that requires an id which
  the configuration lacks and every object inherits; and a configuration in which
  \<open>a\<close> and \<open>b\<close> require each other, \<open>d\<close> requires \<open>a\<close>, and \<open>c\<close> is free.
\<close>

definition missing_example :: "(id \<times> resource_config) list" where
  "missing_example = [(''a'', plain [''x''] (JObj 0)), (''b'', plain [''a''] (JObj 1))]"

definition inherited_name :: "(id \<times> resource_config) list" where
  "inherited_name = [(''a'', plain [''toString''] (JObj 0))]"

definition cycle_example :: "(id \<times> resource_config) list" where
  "cycle_example =
     [(''a'', plain [''b''] (JObj 0)), (''b'', plain [''a''] (JObj 1)),
      (''c'', plain [] (JObj 2)), (''d'', plain [''c'', ''a''] (JObj 3))]"






text \<open>
  A resource whose assertion throws \<open>undefined\<close> (as \<open>Promise.reject()\<close> with no
  reason does).
\<close>

definition falsy_assert :: "(id \<times> resource_config) list" where
  "falsy_assert =
     [(''a'', (plain [] (JStr ''ran''))\<lparr>assert := Some (\<lambda>deps. Throws JUndefined)\<rparr>)]"

section \<open>Properties\<close>

subsection \<open>Positions in a list\<close>

lemma index_of_append:
  "index_of (xs @ ys) a = (if a \<in> set xs then index_of xs a else length xs + index_of ys a)"
  by (induction xs) auto

lemma index_of_less: "a \<in> set xs \<Longrightarrow> index_of xs a < length xs"
  by (induction xs) auto

lemma index_of_filter':
  "P a \<Longrightarrow> P b \<Longrightarrow> a \<in> set K \<Longrightarrow> b \<in> set K \<Longrightarrow>
   (index_of (filter P K) a < index_of (filter P K) b) = (index_of K a < index_of K b)"
  by (induction K) auto


subsection \<open>The dependency normalizer\<close>

lemma dedup_loop_filter:
  "dedup_loop xs seen acc = acc @ filter (\<lambda>y. y \<notin> seen) (first_occurrences xs)"
proof (induction xs arbitrary: seen acc)
  case Nil
  show ?case by simp
next
  case (Cons x xs)
  show ?case
  proof (cases "x \<in> seen")
    case True
    then have "filter (\<lambda>y. y \<notin> seen) (filter (\<lambda>y. y \<noteq> x) (first_occurrences xs))
        = filter (\<lambda>y. y \<notin> seen) (first_occurrences xs)"
      by (auto intro: filter_cong)
    with True Cons show ?thesis by simp
  next
    case False
    have "filter (\<lambda>y. y \<notin> insert x seen) (first_occurrences xs)
        = filter (\<lambda>y. y \<notin> seen) (filter (\<lambda>y. y \<noteq> x) (first_occurrences xs))"
      by (auto intro: filter_cong)
    with False Cons show ?thesis by simp
  qed
qed

lemma set_first_occurrences [simp]: "set (first_occurrences xs) = set xs"
  by (induction xs) auto

lemma distinct_first_occurrences [simp]: "distinct (first_occurrences xs)"
  by (induction xs) auto

lemma first_occurrences_distinct: "distinct xs \<Longrightarrow> first_occurrences xs = xs"
  by (induction xs) (auto simp: filter_id_conv)

lemma first_occurrences_append:
  "first_occurrences (xs @ ys)
     = first_occurrences xs @ filter (\<lambda>y. y \<notin> set xs) (first_occurrences ys)"
proof (induction xs)
  case Nil
  show ?case by simp
next
  case (Cons x xs)
  have "filter (\<lambda>y. y \<noteq> x) (filter (\<lambda>y. y \<notin> set xs) (first_occurrences ys))
      = filter (\<lambda>y. y \<notin> set (x # xs)) (first_occurrences ys)"
    by (simp add: conj_commute)
  with Cons show ?case by simp
qed

lemma index_of_first_occurrences:
  assumes "x \<in> set xs" and "y \<in> set xs"
  shows "(index_of (first_occurrences xs) x < index_of (first_occurrences xs) y)
       = (index_of xs x < index_of xs y)"
  using assms
proof (induction xs)
  case Nil
  then show ?case by simp
next
  case (Cons a xs)
  show ?case
  proof (cases "x = a \<or> y = a")
    case True
    then show ?thesis by auto
  next
    case False
    with Cons.prems have x: "x \<in> set xs" and y: "y \<in> set xs" by auto
    from False x y
    have "(index_of (filter (\<lambda>z. z \<noteq> a) (first_occurrences xs)) x
            < index_of (filter (\<lambda>z. z \<noteq> a) (first_occurrences xs)) y)
        = (index_of (first_occurrences xs) x < index_of (first_occurrences xs) y)"
      by (intro index_of_filter') simp_all
    with Cons.IH [OF x y] False show ?thesis by simp
  qed
qed

text \<open>
  C5. \<open>normalizeDependencies\<close> is a function of its argument alone. An absent spec
  gives three empty lists. An array gives \<open>required\<close> = the array, \<open>optional\<close> empty
  and \<open>all\<close> = \<open>required\<close>. An object gives \<open>required\<close> and \<open>optional\<close> as written,
  each empty when absent, and \<open>all\<close> = \<open>required\<close> followed by \<open>optional\<close> with
  every repeated id dropped at its later occurrences: the ids of \<open>required\<close> come
  first, in their order, then the ids of \<open>optional\<close> that \<open>required\<close> does not list,
  in their order, so an id listed in both stays at its required position only. For
  \<open>required\<close> = \<open>r\<close> and \<open>optional\<close> = \<open>p\<close>, \<open>all\<close> has no repetition, holds
  exactly the ids of \<open>r\<close> and \<open>p\<close>, and orders them by their first occurrence in
  \<open>r\<close> followed by \<open>p\<close>; when neither \<open>r\<close> nor \<open>p\<close> repeats an id, it is \<open>r\<close>
  followed by the ids of \<open>p\<close> that are not in \<open>r\<close>.
\<close>

theorem normalizeDependencies_spec:
  "normalizeDependencies None = \<lparr>required = [], optional = [], all = []\<rparr>
   \<and> normalizeDependencies (Some (DepArray ds)) = \<lparr>required = ds, optional = [], all = ds\<rparr>
   \<and> normalizeDependencies (Some (DepObject None None))
       = \<lparr>required = [], optional = [], all = []\<rparr>
   \<and> normalizeDependencies (Some (DepObject (Some r) None))
       = \<lparr>required = r, optional = [], all = first_occurrences r\<rparr>
   \<and> normalizeDependencies (Some (DepObject None (Some p)))
       = \<lparr>required = [], optional = p, all = first_occurrences p\<rparr>
   \<and> normalizeDependencies (Some (DepObject (Some r) (Some p)))
       = \<lparr>required = r, optional = p,
          all = first_occurrences r @ filter (\<lambda>y. y \<notin> set r) (first_occurrences p)\<rparr>
   \<and> distinct (all (normalizeDependencies (Some (DepObject (Some r) (Some p)))))
   \<and> set (all (normalizeDependencies (Some (DepObject (Some r) (Some p))))) = set r \<union> set p
   \<and> (\<forall>x y. x \<in> set (r @ p) \<and> y \<in> set (r @ p) \<longrightarrow>
         (index_of (all (normalizeDependencies (Some (DepObject (Some r) (Some p))))) x
            < index_of (all (normalizeDependencies (Some (DepObject (Some r) (Some p))))) y)
         = (index_of (r @ p) x < index_of (r @ p) y))
   \<and> (distinct r \<and> distinct p \<longrightarrow>
         all (normalizeDependencies (Some (DepObject (Some r) (Some p))))
           = r @ filter (\<lambda>y. y \<notin> set r) p)"
proof -
  have n: "normalizeDependencies (Some (DepObject (Some r) (Some p)))
      = \<lparr>required = r, optional = p, all = first_occurrences (r @ p)\<rparr>"
    by (simp add: Let_def dedup_loop_filter)
  have "\<forall>x y. x \<in> set (r @ p) \<and> y \<in> set (r @ p) \<longrightarrow>
         (index_of (first_occurrences (r @ p)) x < index_of (first_occurrences (r @ p)) y)
         = (index_of (r @ p) x < index_of (r @ p) y)"
    using index_of_first_occurrences [of _ "r @ p"] by blast
  moreover have "distinct r \<and> distinct p \<longrightarrow>
      first_occurrences (r @ p) = r @ filter (\<lambda>y. y \<notin> set r) p"
    by (simp add: first_occurrences_append first_occurrences_distinct)
  moreover have "first_occurrences (r @ p)
      = first_occurrences r @ filter (\<lambda>y. y \<notin> set r) (first_occurrences p)"
    by (rule first_occurrences_append)
  moreover have "normalizeDependencies (Some (DepObject (Some r) None))
       = \<lparr>required = r, optional = [], all = first_occurrences r\<rparr>"
    by (simp add: Let_def dedup_loop_filter)
  moreover have "normalizeDependencies (Some (DepObject None (Some p)))
       = \<lparr>required = [], optional = p, all = first_occurrences p\<rparr>"
    by (simp add: Let_def dedup_loop_filter)
  moreover have "normalizeDependencies (Some (DepObject None None))
       = \<lparr>required = [], optional = [], all = []\<rparr>"
    by (simp add: Let_def)
  moreover have "distinct (first_occurrences (r @ p))"
    and "set (first_occurrences (r @ p)) = set r \<union> set p"
    by simp_all
  ultimately show ?thesis unfolding n by (simp del: set_append)
qed

text \<open>
  An object spec with \<open>b\<close> in both collections, and one with a repeated optional id
  and no \<open>required\<close>.
\<close>

theorem normalizeDependencies_spec_witness:
  "normalizeDependencies (Some (DepObject (Some [''a'', ''b'']) (Some [''b'', ''c''])))
     = \<lparr>required = [''a'', ''b''], optional = [''b'', ''c''], all = [''a'', ''b'', ''c'']\<rparr>
   \<and> normalizeDependencies (Some (DepObject None (Some [''c'', ''d'', ''c''])))
     = \<lparr>required = [], optional = [''c'', ''d'', ''c''], all = [''c'', ''d'']\<rparr>
   \<and> normalizeDependencies (Some (DepArray [''a'', ''a'']))
     = \<lparr>required = [''a'', ''a''], optional = [], all = [''a'', ''a'']\<rparr>"
proof -
  have d: "distinct [''a'', ''b''] \<and> distinct [''b'', ''c'']" by simp
  from normalizeDependencies_spec [where r = "[''a'', ''b'']" and p = "[''b'', ''c'']"]
  have n: "normalizeDependencies (Some (DepObject (Some [''a'', ''b'']) (Some [''b'', ''c''])))
       = \<lparr>required = [''a'', ''b''], optional = [''b'', ''c''],
          all = first_occurrences [''a'', ''b'']
                @ filter (\<lambda>y. y \<notin> set [''a'', ''b'']) (first_occurrences [''b'', ''c''])\<rparr>"
    and a: "distinct [''a'', ''b''] \<and> distinct [''b'', ''c''] \<longrightarrow>
         all (normalizeDependencies (Some (DepObject (Some [''a'', ''b'']) (Some [''b'', ''c'']))))
           = [''a'', ''b''] @ filter (\<lambda>y. y \<notin> set [''a'', ''b'']) [''b'', ''c'']"
    by blast+
  from a d have "all (normalizeDependencies (Some (DepObject (Some [''a'', ''b'']) (Some [''b'', ''c'']))))
      = [''a'', ''b'', ''c'']" by simp
  with n have "normalizeDependencies (Some (DepObject (Some [''a'', ''b'']) (Some [''b'', ''c''])))
     = \<lparr>required = [''a'', ''b''], optional = [''b'', ''c''], all = [''a'', ''b'', ''c'']\<rparr>"
    by simp
  moreover from normalizeDependencies_spec [where p = "[''c'', ''d'', ''c'']"]
  have "normalizeDependencies (Some (DepObject None (Some [''c'', ''d'', ''c''])))
     = \<lparr>required = [], optional = [''c'', ''d'', ''c''], all = first_occurrences [''c'', ''d'', ''c'']\<rparr>"
    by blast
  moreover from normalizeDependencies_spec [where ds = "[''a'', ''a'']"]
  have "normalizeDependencies (Some (DepArray [''a'', ''a'']))
     = \<lparr>required = [''a'', ''a''], optional = [], all = [''a'', ''a'']\<rparr>"
    by blast
  ultimately show ?thesis by simp
qed

subsection \<open>The sorter: the edge loop\<close>

lemma add_edges_ok:
  assumes "set ds \<subseteq> fst ` set g" and "i \<in> fst ` set deg"
  shows "\<exists>g' deg'. add_edges i ds (g, deg) = Inr (g', deg')
      \<and> map fst g' = map fst g \<and> map fst deg' = map fst deg
      \<and> (\<forall>d. map_of g' d = map_option (\<lambda>xs. xs @ replicate (count_list ds d) i) (map_of g d))
      \<and> (\<forall>j. map_of deg' j
              = map_option (\<lambda>n. n + (if j = i then int (length ds) else 0)) (map_of deg j))"
  using assms
proof (induction ds arbitrary: g deg)
  case Nil
  show ?case by (simp add: option.map_ident)
next
  case (Cons d ds)
  from Cons.prems obtain xs where xs: "map_of g d = Some xs"
    by (cases "map_of g d") (auto simp: map_of_eq_None_iff)
  from Cons.prems obtain n where n: "map_of deg i = Some n"
    by (cases "map_of deg i") (auto simp: map_of_eq_None_iff)
  let ?g = "AList.update d (xs @ [i]) g"
  let ?deg = "AList.update i (n + 1) deg"
  have kg: "map fst ?g = map fst g"
    using xs by (auto simp: update_keys dest: map_of_SomeD intro: rev_image_eqI)
  have kd: "map fst ?deg = map fst deg"
    using n by (auto simp: update_keys dest: map_of_SomeD intro: rev_image_eqI)
  have "set ds \<subseteq> fst ` set ?g" using Cons.prems kg by (metis list.set_map set_subset_Cons subset_trans)
  moreover have "i \<in> fst ` set ?deg" using Cons.prems kd by (metis list.set_map)
  ultimately obtain g' deg' where
    r: "add_edges i ds (?g, ?deg) = Inr (g', deg')"
    and kg': "map fst g' = map fst ?g" and kd': "map fst deg' = map fst ?deg"
    and mg: "\<forall>e. map_of g' e = map_option (\<lambda>xs. xs @ replicate (count_list ds e) i) (map_of ?g e)"
    and md: "\<forall>j. map_of deg' j
              = map_option (\<lambda>n. n + (if j = i then int (length ds) else 0)) (map_of ?deg j)"
    using Cons.IH [of ?g ?deg] by blast
  have "add_edges i (d # ds) (g, deg) = Inr (g', deg')"
    using xs n r by simp
  moreover have "\<forall>e. map_of g' e
      = map_option (\<lambda>xs. xs @ replicate (count_list (d # ds) e) i) (map_of g e)"
    using mg xs by (auto simp: update_conv' replicate_app_Cons_same)
  moreover have "\<forall>j. map_of deg' j
      = map_option (\<lambda>n. n + (if j = i then int (length (d # ds)) else 0)) (map_of deg j)"
    using md n by (auto simp: update_conv')
  ultimately show ?case using kg kg' kd kd' by auto
qed

lemma add_edges_keys:
  "add_edges i ds (g, deg) = Inr (g', deg') \<Longrightarrow> map fst g' = map fst g"
proof (induction ds arbitrary: g deg)
  case Nil
  then show ?case by simp
next
  case (Cons d ds)
  then show ?case
    by (auto simp: update_keys split: option.splits if_splits dest: map_of_SomeD intro: rev_image_eqI)
qed

lemma add_edges_missing:
  assumes "\<not> set ds \<subseteq> fst ` set g"
  shows "\<exists>d. d \<in> set ds \<and> d \<notin> fst ` set g \<and> add_edges i ds (g, deg) = Inl (absent_dependency i d)"
  using assms
proof (induction ds arbitrary: g deg)
  case Nil
  then show ?case by simp
next
  case (Cons d ds)
  show ?case
  proof (cases "map_of g d")
    case None
    then have "d \<notin> fst ` set g" by (simp add: map_of_eq_None_iff)
    with None show ?thesis by (intro exI [of _ d]) (simp add: absent_dependency_def)
  next
    case (Some xs)
    let ?g = "AList.update d (xs @ [i]) g"
    have kg: "fst ` set ?g = fst ` set g"
      using Some by (auto simp: dom_update dest: map_of_SomeD intro: rev_image_eqI)
    from Some have "d \<in> fst ` set g" by (auto dest: map_of_SomeD intro: rev_image_eqI)
    with Cons.prems have "\<not> set ds \<subseteq> fst ` set ?g" using kg by auto
    from Cons.IH [OF this, of "AList.update i ((case map_of deg i of None \<Rightarrow> 0 | Some n \<Rightarrow> n) + 1) deg"]
    obtain e where "e \<in> set ds" "e \<notin> fst ` set ?g"
      "add_edges i ds (?g, AList.update i ((case map_of deg i of None \<Rightarrow> 0 | Some n \<Rightarrow> n) + 1) deg)
         = Inl (absent_dependency i e)"
      by blast
    with kg Some show ?thesis by (intro exI [of _ e]) simp
  qed
qed

lemma add_edges_total:
  "set ds \<subseteq> fst ` set g \<Longrightarrow> \<exists>st. add_edges i ds (g, deg) = Inr st"
proof (induction ds arbitrary: g deg)
  case Nil
  show ?case by simp
next
  case (Cons d ds)
  from Cons.prems obtain xs where xs: "map_of g d = Some xs"
    by (cases "map_of g d") (auto simp: map_of_eq_None_iff)
  have "fst ` set (AList.update d (xs @ [i]) g) = fst ` set g"
    using xs by (auto simp: dom_update dest: map_of_SomeD intro: rev_image_eqI)
  with Cons.prems have "set ds \<subseteq> fst ` set (AList.update d (xs @ [i]) g)" by simp
  from Cons.IH [OF this] xs show ?case by simp
qed

lemma iter_deps_Inr: "iter_deps sp = Inr ds \<Longrightarrow> (case sp of Some (DepArray xs) \<Rightarrow> xs | _ \<Rightarrow> []) = ds"
  by (cases sp rule: iter_deps.cases) auto

lemma build_edges_ok:
  assumes "array_form rs"
    and "\<forall>p\<in>set rs. set (deps_of (snd p)) \<subseteq> fst ` set g"
    and "fst ` set rs \<subseteq> fst ` set deg"
  shows "\<exists>g' deg'. build_edges rs (g, deg) = Inr (g', deg')
      \<and> map fst g' = map fst g \<and> map fst deg' = map fst deg
      \<and> (\<forall>d. map_of g' d = map_option (\<lambda>xs. xs @ dependents_in rs d) (map_of g d))
      \<and> (\<forall>j. map_of deg' j = map_option (\<lambda>n. n + degree_in rs j) (map_of deg j))"
  using assms
proof (induction rs arbitrary: g deg)
  case Nil
  show ?case by (simp add: dependents_in_def degree_in_def option.map_ident)
next
  case (Cons p rs)
  obtain i r where p: "p = (i, r)" by (cases p)
  let ?ds = "deps_of r"
  from Cons.prems(1) p have it: "iter_deps (dependencies r) = Inr ?ds" and af: "array_form rs"
    by (simp_all add: array_form_def)
  from Cons.prems(2,3) p have "set ?ds \<subseteq> fst ` set g" and "i \<in> fst ` set deg" by auto
  from add_edges_ok [OF this] obtain g1 deg1 where
    a: "add_edges i ?ds (g, deg) = Inr (g1, deg1)"
    and kg: "map fst g1 = map fst g" and kd: "map fst deg1 = map fst deg"
    and mg: "\<forall>d. map_of g1 d = map_option (\<lambda>xs. xs @ replicate (count_list ?ds d) i) (map_of g d)"
    and md: "\<forall>j. map_of deg1 j = map_option (\<lambda>n. n + (if j = i then int (length ?ds) else 0)) (map_of deg j)"
    by blast
  have sg: "fst ` set g1 = fst ` set g" using kg by (metis list.set_map)
  have sd: "fst ` set deg1 = fst ` set deg" using kd by (metis list.set_map)
  from Cons.prems(2,3) sg sd
  have "\<forall>p\<in>set rs. set (deps_of (snd p)) \<subseteq> fst ` set g1" and "fst ` set rs \<subseteq> fst ` set deg1"
    by auto
  from Cons.IH [OF af this] obtain g' deg' where
    b: "build_edges rs (g1, deg1) = Inr (g', deg')"
    and kg': "map fst g' = map fst g1" and kd': "map fst deg' = map fst deg1"
    and mg': "\<forall>d. map_of g' d = map_option (\<lambda>xs. xs @ dependents_in rs d) (map_of g1 d)"
    and md': "\<forall>j. map_of deg' j = map_option (\<lambda>n. n + degree_in rs j) (map_of deg1 j)"
    by blast
  have "build_edges (p # rs) (g, deg) = Inr (g', deg')"
    using p it a b by simp
  moreover have "\<forall>d. map_of g' d = map_option (\<lambda>xs. xs @ dependents_in (p # rs) d) (map_of g d)"
    using mg mg' p by (simp add: dependents_in_def option.map_comp comp_def)
  moreover have "\<forall>j. map_of deg' j = map_option (\<lambda>n. n + degree_in (p # rs) j) (map_of deg j)"
    using md md' p by (auto simp add: degree_in_def option.map_comp comp_def intro!: option.map_cong)
  ultimately show ?case using kg kg' kd kd' by auto
qed

lemma build_edges_Inr:
  assumes "build_edges rs (g, deg) = Inr st"
  shows "array_form rs \<and> (\<forall>p\<in>set rs. set (deps_of (snd p)) \<subseteq> fst ` set g)"
  using assms
proof (induction rs arbitrary: g deg)
  case Nil
  show ?case by (simp add: array_form_def)
next
  case (Cons p rs)
  obtain i r where p: "p = (i, r)" by (cases p)
  from Cons.prems p obtain ds where it: "iter_deps (dependencies r) = Inr ds"
    by (cases "iter_deps (dependencies r)") auto
  then have ds: "deps_of r = ds" by (simp add: deps_of_def iter_deps_Inr)
  from Cons.prems p it obtain g1 deg1 where a: "add_edges i ds (g, deg) = Inr (g1, deg1)"
    and b: "build_edges rs (g1, deg1) = Inr st"
    by (cases "add_edges i ds (g, deg)") auto
  from a have sub: "set ds \<subseteq> fst ` set g"
    using add_edges_missing [of ds g i deg] by auto
  from add_edges_keys [OF a] have "fst ` set g1 = fst ` set g" by (metis list.set_map)
  with Cons.IH [OF b] it ds sub p show ?case by (simp add: array_form_def)
qed

lemma build_edges_missing:
  assumes "array_form rs" and "\<not> (\<forall>p\<in>set rs. set (deps_of (snd p)) \<subseteq> fst ` set g)"
  shows "\<exists>i r d. (i, r) \<in> set rs \<and> d \<in> set (deps_of r) \<and> d \<notin> fst ` set g
           \<and> build_edges rs (g, deg) = Inl (absent_dependency i d)"
  using assms
proof (induction rs arbitrary: g deg)
  case Nil
  then show ?case by simp
next
  case (Cons p rs)
  obtain i r where p: "p = (i, r)" by (cases p)
  let ?ds = "deps_of r"
  from Cons.prems(1) p have it: "iter_deps (dependencies r) = Inr ?ds" and af: "array_form rs"
    by (simp_all add: array_form_def)
  show ?case
  proof (cases "set ?ds \<subseteq> fst ` set g")
    case False
    from add_edges_missing [OF this, of i deg] obtain d where
      "d \<in> set ?ds" "d \<notin> fst ` set g" "add_edges i ?ds (g, deg) = Inl (absent_dependency i d)"
      by blast
    with p it show ?thesis by (intro exI [of _ i] exI [of _ r] exI [of _ d]) simp
  next
    case True
    obtain st where a: "add_edges i ?ds (g, deg) = Inr st"
      using add_edges_total [OF True] by blast
    obtain g1 deg1 where st: "st = (g1, deg1)" by (cases st)
    from add_edges_keys [OF a [unfolded st]] have sg: "fst ` set g1 = fst ` set g"
      by (metis list.set_map)
    from Cons.prems(2) True p sg have "\<not> (\<forall>p\<in>set rs. set (deps_of (snd p)) \<subseteq> fst ` set g1)"
      by auto
    from Cons.IH [OF af this, of deg1] obtain j r' d where
      "(j, r') \<in> set rs" "d \<in> set (deps_of r')" "d \<notin> fst ` set g1"
      "build_edges rs (g1, deg1) = Inl (absent_dependency j d)"
      by blast
    with p it a st sg show ?thesis
      by (intro exI [of _ j] exI [of _ r'] exI [of _ d]) simp
  qed
qed

subsection \<open>The sorter: the queue loop\<close>

lemma set_dependents_list: "set (dependents_list K D n) \<subseteq> set K"
  by (auto simp: dependents_list_def)

lemma count_dependents_list:
  "distinct K \<Longrightarrow> count_list (dependents_list K D n) i = (if i \<in> set K then count_list (D i) n else 0)"
proof (induction K)
  case Nil
  show ?case by (simp add: dependents_list_def)
next
  case (Cons k K)
  have "count_list (replicate c k) i = (if i = k then c else 0)" for c
    by (induction c) auto
  with Cons show ?case by (auto simp: dependents_list_def)
qed

lemma remdups_replicate_append:
  "k \<notin> set xs \<Longrightarrow> remdups (replicate c k @ xs) = (if c = 0 then [] else [k]) @ remdups xs"
  by (induction c) auto

lemma remdups_dependents_list:
  "distinct K \<Longrightarrow> remdups (dependents_list K D n) = filter (\<lambda>i. n \<in> set (D i)) K"
proof (induction K)
  case Nil
  show ?case by (simp add: dependents_list_def)
next
  case (Cons k K)
  have dl: "dependents_list (k # K) D n = replicate (count_list (D k) n) k @ dependents_list K D n"
    by (simp add: dependents_list_def)
  from Cons.prems have "k \<notin> set (dependents_list K D n)"
    using set_dependents_list [of K D n] by auto
  from remdups_replicate_append [OF this] Cons show ?case
    by (auto simp: dl count_list_0_iff)
qed

lemma release_result:
  assumes "\<forall>i\<in>set L. \<exists>v. map_of deg i = Some v \<and> int (count_list L i) \<le> v"
    and "release L (deg, q) = (deg', q')"
  shows "q' = q @ filter (\<lambda>i. map_of deg i = Some (int (count_list L i))) (remdups L)
       \<and> (\<forall>i. map_of deg' i = map_option (\<lambda>v. v - int (count_list L i)) (map_of deg i))"
  using assms
proof (induction L arbitrary: deg q)
  case Nil
  then show ?case by (simp add: option.map_ident)
next
  case (Cons d ds)
  from Cons.prems(1) obtain n where n: "map_of deg d = Some n"
    and nge: "int (count_list ds d) + 1 \<le> n"
    by auto
  let ?deg = "AList.update d (n - 1) deg"
  let ?q = "if n - 1 = 0 then q @ [d] else q"
  have m1: "map_of ?deg i = (if i = d then Some (n - 1) else map_of deg i)" for i
    by (simp add: update_conv')
  have pre: "\<forall>i\<in>set ds. \<exists>v. map_of ?deg i = Some v \<and> int (count_list ds i) \<le> v"
  proof
    fix i assume i: "i \<in> set ds"
    show "\<exists>v. map_of ?deg i = Some v \<and> int (count_list ds i) \<le> v"
    proof (cases "i = d")
      case True
      with nge show ?thesis by (simp add: m1)
    next
      case False
      with Cons.prems(1) i show ?thesis by (auto simp: m1)
    qed
  qed
  from Cons.prems(2) n have rel: "release ds (?deg, ?q) = (deg', q')" by simp
  from Cons.IH [OF pre rel]
  have q': "q' = ?q @ filter (\<lambda>i. map_of ?deg i = Some (int (count_list ds i))) (remdups ds)"
    and d': "\<forall>i. map_of deg' i = map_option (\<lambda>v. v - int (count_list ds i)) (map_of ?deg i)"
    by simp_all
  have degs: "\<forall>i. map_of deg' i = map_option (\<lambda>v. v - int (count_list (d # ds) i)) (map_of deg i)"
    using d' n by (auto simp: m1)
  have same: "(map_of ?deg i = Some (int (count_list ds i)))
      = (map_of deg i = Some (int (count_list (d # ds) i)))" for i
    using n by (auto simp: m1)
  have feq: "filter (\<lambda>i. map_of ?deg i = Some (int (count_list ds i))) (remdups ds)
      = filter (\<lambda>i. map_of deg i = Some (int (count_list (d # ds) i))) (remdups ds)"
    by (rule filter_cong) (simp_all only: same)
  have hd_eq: "(map_of deg d = Some (int (count_list (d # ds) d))) = (n = int (count_list ds d) + 1)"
    using n by auto
  have queue: "q' = q @ filter (\<lambda>i. map_of deg i = Some (int (count_list (d # ds) i))) (remdups (d # ds))"
  proof (cases "d \<in> set ds")
    case True
    then have "count_list ds d \<noteq> 0" by (simp add: count_list_0_iff)
    with nge have "n - 1 \<noteq> 0" by simp
    with q' True show ?thesis by (simp only: feq remdups.simps if_True if_False)
  next
    case False
    then have c0: "count_list ds d = 0" by (simp add: count_list_0_iff)
    have "remdups (d # ds) = d # remdups ds" using False by simp
    moreover have "(n - 1 = 0) = (map_of deg d = Some (int (count_list (d # ds) d)))"
      unfolding hd_eq c0 by auto
    ultimately show ?thesis
      using q' by (simp only: feq filter.simps split: if_splits) auto
  qed
  from queue degs show ?case by simp
qed

lemma filter_not_in_count:
  "n \<notin> S \<Longrightarrow>
   length (filter (\<lambda>d. d \<notin> S) xs) = count_list xs n + length (filter (\<lambda>d. d \<notin> insert n S) xs)"
  by (induction xs) auto

lemma filter_eq_count_iff:
  assumes "n \<notin> S"
  shows "(length (filter (\<lambda>d. d \<notin> S) xs) = count_list xs n) = (set xs \<subseteq> insert n S)"
proof -
  have "(length (filter (\<lambda>d. d \<notin> insert n S) xs) = 0) = (set xs \<subseteq> insert n S)"
    by (auto simp: filter_empty_conv)
  with filter_not_in_count [OF assms, of xs] show ?thesis by linarith
qed

lemma block_stable:
  assumes "n \<notin> set res" and "m \<in> set res"
  shows "block K D (res @ [n]) m = block K D res m"
  unfolding block_def
proof (rule filter_cong [OF refl])
  fix i
  show "(D i \<noteq> [] \<and> set (D i) \<subseteq> set (res @ [n])
          \<and> last (filter (\<lambda>m. m \<in> set (D i)) (res @ [n])) = m)
      = (D i \<noteq> [] \<and> set (D i) \<subseteq> set res \<and> last (filter (\<lambda>m. m \<in> set (D i)) res) = m)"
  proof (cases "n \<in> set (D i)")
    case True
    with assms show ?thesis by auto
  next
    case False
    then show ?thesis by auto
  qed
qed

lemma block_new:
  assumes "n \<notin> set res"
  shows "block K D (res @ [n]) n
       = filter (\<lambda>i. n \<in> set (D i) \<and> set (D i) \<subseteq> insert n (set res)) K"
  unfolding block_def
proof (rule filter_cong [OF refl])
  fix i
  show "(D i \<noteq> [] \<and> set (D i) \<subseteq> set (res @ [n])
          \<and> last (filter (\<lambda>m. m \<in> set (D i)) (res @ [n])) = n)
      = (n \<in> set (D i) \<and> set (D i) \<subseteq> insert n (set res))"
  proof (cases "n \<in> set (D i)")
    case True
    then show ?thesis by auto
  next
    case False
    have "last (filter (\<lambda>m. m \<in> set (D i)) res) \<noteq> n"
      if ne: "D i \<noteq> []" and sub: "set (D i) \<subseteq> set res"
    proof -
      from ne obtain x where "x \<in> set (D i)" by (cases "D i") auto
      with sub have "filter (\<lambda>m. m \<in> set (D i)) res \<noteq> []"
        by (auto simp: filter_empty_conv)
      from last_in_set [OF this] have "last (filter (\<lambda>m. m \<in> set (D i)) res) \<in> set res"
        by auto
      with assms show ?thesis by auto
    qed
    with False show ?thesis by auto
  qed
qed

lemma kahn_step:
  assumes dK: "distinct K"
    and inv: "kahn_inv K D deg (n # q) res"
    and rel: "release (dependents_list K D n) (deg, q) = (deg', q')"
  shows "kahn_inv K D deg' q' (res @ [n])"
proof -
  let ?news = "filter (\<lambda>i. n \<in> set (D i) \<and> set (D i) \<subseteq> insert n (set res)) K"
  from inv have a1: "distinct (res @ n # q)" and a2: "set (res @ n # q) \<subseteq> set K"
    and b: "\<forall>i\<in>set K. map_of deg i = Some (int (length (filter (\<lambda>d. d \<notin> set res) (D i))))"
    and c: "\<forall>i\<in>set K. (i \<in> set (res @ n # q)) = (set (D i) \<subseteq> set res)"
    and d: "\<forall>ys i zs. res = ys @ i # zs \<longrightarrow> set (D i) \<subseteq> set ys"
    and e: "res @ n # q = filter (\<lambda>i. D i = []) K @ concat (map (block K D res) res)"
    unfolding kahn_inv_def by blast+
  from a1 a2 have nK: "n \<in> set K" and nres: "n \<notin> set res" and nq: "n \<notin> set q" by auto
  have cnt: "count_list (dependents_list K D n) i = count_list (D i) n" if "i \<in> set K" for i
    using that by (simp add: count_dependents_list [OF dK])
  have pre: "\<forall>i\<in>set (dependents_list K D n).
      \<exists>v. map_of deg i = Some v \<and> int (count_list (dependents_list K D n) i) \<le> v"
  proof
    fix i assume "i \<in> set (dependents_list K D n)"
    then have iK: "i \<in> set K" using set_dependents_list by blast
    from filter_not_in_count [OF nres, of "D i"]
    have "count_list (D i) n \<le> length (filter (\<lambda>d. d \<notin> set res) (D i))" by simp
    with b iK cnt [OF iK]
    show "\<exists>v. map_of deg i = Some v \<and> int (count_list (dependents_list K D n) i) \<le> v"
      by simp
  qed
  from release_result [OF pre rel]
  have q1: "q' = q @ filter (\<lambda>i. map_of deg i = Some (int (count_list (dependents_list K D n) i)))
                      (remdups (dependents_list K D n))"
    and deg1: "\<forall>i. map_of deg' i
        = map_option (\<lambda>v. v - int (count_list (dependents_list K D n) i)) (map_of deg i)"
    by simp_all
  have "filter (\<lambda>i. map_of deg i = Some (int (count_list (dependents_list K D n) i)))
          (remdups (dependents_list K D n)) = ?news"
    unfolding remdups_dependents_list [OF dK] filter_filter
  proof (rule filter_cong [OF refl])
    fix i assume iK: "i \<in> set K"
    from b iK cnt [OF iK] filter_eq_count_iff [OF nres, of "D i"]
    show "(n \<in> set (D i) \<and> map_of deg i = Some (int (count_list (dependents_list K D n) i)))
        = (n \<in> set (D i) \<and> set (D i) \<subseteq> insert n (set res))"
      by auto
  qed
  with q1 have q': "q' = q @ ?news" by simp
  have news_new: "i \<notin> set (res @ n # q)" if "i \<in> set ?news" for i
  proof -
    from that have iK: "i \<in> set K" and "n \<in> set (D i)" by auto
    with nres have "\<not> set (D i) \<subseteq> set res" by auto
    with c iK show ?thesis by blast
  qed
  have A: "distinct ((res @ [n]) @ q')"
    using a1 dK news_new unfolding q' by (auto simp: distinct_filter)
  have A2: "set ((res @ [n]) @ q') \<subseteq> set K"
    using a2 unfolding q' by auto
  have B: "\<forall>i\<in>set K. map_of deg' i
      = Some (int (length (filter (\<lambda>d. d \<notin> set (res @ [n])) (D i))))"
  proof
    fix i assume iK: "i \<in> set K"
    from filter_not_in_count [OF nres, of "D i"] b iK deg1 cnt [OF iK]
    show "map_of deg' i = Some (int (length (filter (\<lambda>d. d \<notin> set (res @ [n])) (D i))))"
      by simp
  qed
  have C: "\<forall>i\<in>set K. (i \<in> set ((res @ [n]) @ q')) = (set (D i) \<subseteq> set (res @ [n]))"
  proof
    fix i assume iK: "i \<in> set K"
    have "(i \<in> set ((res @ [n]) @ q')) = (i \<in> set (res @ n # q) \<or> i \<in> set ?news)"
      unfolding q' by auto
    also have "\<dots> = (set (D i) \<subseteq> set res \<or> (n \<in> set (D i) \<and> set (D i) \<subseteq> insert n (set res)))"
      using c iK by auto
    also have "\<dots> = (set (D i) \<subseteq> set (res @ [n]))" by auto
    finally show "(i \<in> set ((res @ [n]) @ q')) = (set (D i) \<subseteq> set (res @ [n]))" .
  qed
  have Dn: "set (D n) \<subseteq> set res" using c nK by auto
  have Dp: "\<forall>ys i zs. res @ [n] = ys @ i # zs \<longrightarrow> set (D i) \<subseteq> set ys"
  proof (intro allI impI)
    fix ys i zs assume eq: "res @ [n] = ys @ i # zs"
    show "set (D i) \<subseteq> set ys"
    proof (cases zs rule: rev_cases)
      case Nil
      with eq have "ys = res" "i = n" by auto
      with Dn show ?thesis by simp
    next
      case (snoc zs' z)
      with eq have "res = ys @ i # zs'" by auto
      with d show ?thesis by blast
    qed
  qed
  have me: "map (block K D (res @ [n])) res = map (block K D res) res"
    by (rule map_cong [OF refl]) (rule block_stable [OF nres])
  have cc: "concat (map (block K D (res @ [n])) (res @ [n]))
      = concat (map (block K D res) res) @ ?news"
    unfolding map_append concat_append me by (simp add: block_new [OF nres])
  have "(res @ [n]) @ q' = (res @ n # q) @ ?news" unfolding q' by simp
  also have "\<dots> = (filter (\<lambda>i. D i = []) K @ concat (map (block K D res) res)) @ ?news"
    by (simp only: e)
  also have "\<dots> = filter (\<lambda>i. D i = []) K @ concat (map (block K D (res @ [n])) (res @ [n]))"
    unfolding cc by simp
  finally have E: "(res @ [n]) @ q'
      = filter (\<lambda>i. D i = []) K @ concat (map (block K D (res @ [n])) (res @ [n]))" .
  from A A2 B C Dp E show ?thesis unfolding kahn_inv_def by blast
qed

lemma kahn_loop_inv:
  assumes "distinct K"
    and "\<forall>n\<in>set K. map_of g n = Some (dependents_list K D n)"
    and "kahn_inv K D deg q res"
  shows "\<exists>res' deg'. kahn_loop g deg q res = Inr res' \<and> kahn_inv K D deg' [] res'"
  using assms
proof (induction g deg q res rule: kahn_loop.induct)
  case (1 g deg res)
  then show ?case by auto
next
  case (2 g deg n q res)
  from "2.prems"(3) have "n \<in> set K" by (auto simp: kahn_inv_def)
  with "2.prems"(2) have gn: "map_of g n = Some (dependents_list K D n)" by simp
  obtain deg' q' where rel: "release (dependents_list K D n) (deg, q) = (deg', q')"
    by (cases "release (dependents_list K D n) (deg, q)")
  from kahn_step [OF "2.prems"(1,3) rel] have "kahn_inv K D deg' q' (res @ [n])" .
  from "2.IH" [OF gn rel [symmetric] "2.prems"(1,2) this] gn rel
  show ?case by simp
qed

subsection \<open>The sorter: what it returns\<close>

lemma deps_at_member:
  "distinct (map fst rs) \<Longrightarrow> (i, r) \<in> set rs \<Longrightarrow> deps_at rs i = deps_of r"
  by (simp add: deps_at_def)

lemma dep_edges_iff:
  "distinct (map fst rs) \<Longrightarrow>
   ((d, i) \<in> dep_edges rs) = (i \<in> fst ` set rs \<and> d \<in> set (deps_at rs i))"
  by (force simp: dep_edges_def deps_at_member)

lemma dependents_in_list:
  assumes "distinct (map fst rs)"
  shows "dependents_in rs d = dependents_list (map fst rs) (deps_at rs) d"
  unfolding dependents_in_def dependents_list_def map_map comp_def
  by (rule arg_cong [where f = concat], rule map_cong [OF refl])
     (use assms in \<open>auto simp: deps_at_def\<close>)

lemma degree_in_length:
  assumes "distinct (map fst rs)" and "j \<in> fst ` set rs"
  shows "degree_in rs j = int (length (deps_at rs j))"
  using assms
proof (induction rs)
  case Nil
  then show ?case by simp
next
  case (Cons p rs)
  show ?case
  proof (cases "fst p = j")
    case True
    with Cons.prems have "j \<notin> fst ` set rs" by auto
    then have "sum_list (map (\<lambda>p. if fst p = j then length (deps_of (snd p)) else 0) rs) = 0"
      by (induction rs) auto
    with True show ?thesis by (simp add: degree_in_def deps_at_def)
  next
    case False
    with Cons.prems have "j \<in> fst ` set rs" and "distinct (map fst rs)" by auto
    from Cons.IH [OF this(2,1)] False show ?thesis
      by (cases p) (simp add: degree_in_def deps_at_def)
  qed
qed

lemma map_of_const_keys:
  "map_of (map (\<lambda>k. (k, c)) K) i = (if i \<in> set K then Some c else None)"
  by (induction K) auto

lemma zero_degree_keys:
  assumes "distinct (map fst deg)" and "\<forall>i\<in>fst ` set deg. map_of deg i = Some (f i)"
  shows "map fst (filter (\<lambda>p. snd p = 0) deg) = filter (\<lambda>i. f i = (0::int)) (map fst deg)"
proof -
  have "filter (\<lambda>p. snd p = 0) deg = filter (\<lambda>p. f (fst p) = 0) deg"
  proof (rule filter_cong [OF refl])
    fix p assume p: "p \<in> set deg"
    with assms(1) have "map_of deg (fst p) = Some (snd p)" by (cases p) simp
    moreover from p assms(2) have "map_of deg (fst p) = Some (f (fst p))" by auto
    ultimately show "(snd p = 0) = (f (fst p) = 0)" by simp
  qed
  then show ?thesis by (simp add: filter_map comp_def)
qed

lemma topologicalSort_run:
  assumes dK: "distinct (map fst rs)" and af: "array_form rs" and de: "deps_exist rs"
  shows "\<exists>res. kahn_final (map fst rs) (deps_at rs) res
      \<and> topologicalSort rs =
          (if length res \<noteq> length rs
           then Inl (CircularDependency (filter (\<lambda>i. i \<notin> set res) (map fst rs)))
           else Inr res)"
proof -
  let ?K = "map fst rs" and ?D = "deps_at rs"
  let ?g0 = "map (\<lambda>i. (i, [])) ?K :: graph" and ?d0 = "map (\<lambda>i. (i, 0)) ?K :: in_degree"
  have k0: "map fst ?g0 = ?K" "map fst ?d0 = ?K" by (simp_all add: comp_def)
  have m0: "map_of ?g0 i = (if i \<in> set ?K then Some [] else None)"
    "map_of ?d0 i = (if i \<in> set ?K then Some 0 else None)" for i
    by (rule map_of_const_keys)+
  have "\<forall>p\<in>set rs. set (deps_of (snd p)) \<subseteq> fst ` set ?g0"
    using de k0(1) by (auto simp: deps_exist_def list_all_iff image_image)
  moreover have "fst ` set rs \<subseteq> fst ` set ?d0" by (auto simp: image_image)
  ultimately obtain g deg where
    b: "build_edges rs (?g0, ?d0) = Inr (g, deg)"
    and kd: "map fst deg = map fst ?d0"
    and mg: "\<forall>d. map_of g d = map_option (\<lambda>xs. xs @ dependents_in rs d) (map_of ?g0 d)"
    and md: "\<forall>j. map_of deg j = map_option (\<lambda>n. n + degree_in rs j) (map_of ?d0 j)"
    using build_edges_ok [OF af, of ?g0 ?d0] by blast
  have kd': "map fst deg = ?K" using kd k0 by simp
  have G: "\<forall>n\<in>set ?K. map_of g n = Some (dependents_list ?K ?D n)"
  proof
    fix n assume nK: "n \<in> set ?K"
    from mg have 1: "map_of g n = map_option (\<lambda>xs. xs @ dependents_in rs n) (map_of ?g0 n)"
      by blast
    have 2: "map_of ?g0 n = Some []" using nK by (simp only: m0 if_True)
    show "map_of g n = Some (dependents_list ?K ?D n)"
      unfolding 1 2 by (simp add: dependents_in_list [OF dK])
  qed
  have Dg: "\<forall>i\<in>set ?K. map_of deg i = Some (int (length (?D i)))"
  proof
    fix i assume iK: "i \<in> set ?K"
    from md have 1: "map_of deg i = map_option (\<lambda>n. n + degree_in rs i) (map_of ?d0 i)"
      by blast
    have 2: "map_of ?d0 i = Some 0" using iK by (simp only: m0 if_True)
    from iK have "i \<in> fst ` set rs" by simp
    from degree_in_length [OF dK this]
    show "map_of deg i = Some (int (length (?D i)))"
      unfolding 1 2 by simp
  qed
  have q0: "map fst (filter (\<lambda>p. snd p = 0) deg) = filter (\<lambda>i. ?D i = []) ?K"
  proof -
    have d1: "distinct (map fst deg)" using dK kd' by simp
    have d2: "\<forall>i\<in>fst ` set deg. map_of deg i = Some (int (length (?D i)))"
    proof
      fix i assume "i \<in> fst ` set deg"
      then have "i \<in> set (map fst deg)" by simp
      then have "i \<in> set ?K" unfolding kd' .
      with Dg show "map_of deg i = Some (int (length (?D i)))" by blast
    qed
    from zero_degree_keys [OF d1 d2] show ?thesis unfolding kd' by simp
  qed
  have "kahn_inv ?K ?D deg (filter (\<lambda>i. ?D i = []) ?K) []"
    unfolding kahn_inv_def using dK Dg by auto
  from kahn_loop_inv [OF dK G this] obtain res deg' where
    r: "kahn_loop g deg (filter (\<lambda>i. ?D i = []) ?K) [] = Inr res"
    and fin: "kahn_inv ?K ?D deg' [] res"
    by blast
  from fin have "kahn_final ?K ?D res" by (simp add: kahn_inv_def kahn_final_def)
  moreover have "topologicalSort rs =
          (if length res \<noteq> length rs
           then Inl (CircularDependency (filter (\<lambda>i. i \<notin> set res) ?K))
           else Inr res)"
    by (simp only: topologicalSort_def Let_def b sum.case prod.case q0 r length_map)
  ultimately show ?thesis by blast
qed

lemma kahn_final_before:
  assumes fin: "kahn_final K D res" and i: "i \<in> set res" and d: "d \<in> set (D i)"
  shows "d \<in> set res \<and> index_of res d < index_of res i"
proof -
  from i obtain ys zs where res: "res = ys @ i # zs" by (auto dest: split_list)
  with fin have sub: "set (D i) \<subseteq> set ys" and dis: "distinct (ys @ i # zs)"
    unfolding kahn_final_def by blast+
  from sub d have dy: "d \<in> set ys" by auto
  from dis have "i \<notin> set ys" by auto
  with dy index_of_less [OF dy] show ?thesis
    unfolding res by (simp add: index_of_append)
qed

lemma kahn_final_path:
  assumes fin: "kahn_final K D res"
    and E: "\<And>d i. ((d, i) \<in> E) = (i \<in> set K \<and> d \<in> set (D i))"
    and path: "(a, b) \<in> E\<^sup>+"
  shows "b \<in> set res \<longrightarrow> a \<in> set res \<and> index_of res a < index_of res b"
  using path
proof (induction rule: trancl_induct)
  case (base y)
  with E have "a \<in> set (D y)" by simp
  with kahn_final_before [OF fin] show ?case by blast
next
  case (step y z)
  with E have "y \<in> set (D z)" by simp
  with kahn_final_before [OF fin, of z y] step.IH show ?case by auto
qed

lemma kahn_final_set:
  assumes fin: "kahn_final K D res"
    and E: "\<And>d i. ((d, i) \<in> E) = (i \<in> set K \<and> d \<in> set (D i))"
    and inK: "\<forall>i\<in>set K. set (D i) \<subseteq> set K"
  shows "set res = {i \<in> set K. i \<notin> blocked E}"
proof (intro equalityI subsetI)
  fix i assume i: "i \<in> set res"
  with fin have iK: "i \<in> set K" unfolding kahn_final_def by blast
  have "i \<notin> blocked E"
  proof
    assume "i \<in> blocked E"
    then obtain c where cc: "(c, c) \<in> E\<^sup>+" and ci: "(c, i) \<in> E\<^sup>*"
      by (auto simp: blocked_def)
    from ci have "c = i \<or> (c, i) \<in> E\<^sup>+" by (auto simp: rtrancl_eq_or_trancl)
    with kahn_final_path [OF fin E] i have "c \<in> set res" by blast
    with kahn_final_path [OF fin E cc] show False by simp
  qed
  with iK show "i \<in> {i \<in> set K. i \<notin> blocked E}" by simp
next
  fix i assume "i \<in> {i \<in> set K. i \<notin> blocked E}"
  then have iK: "i \<in> set K" and nb: "i \<notin> blocked E" by simp_all
  let ?EW = "{(d, i). (d, i) \<in> E \<and> i \<notin> blocked E}"
  have "E \<subseteq> set K \<times> set K" using E inK by auto
  then have "finite E" by (rule finite_subset) simp
  then have finEW: "finite ?EW" by (rule rev_finite_subset) auto
  have "acyclic ?EW"
  proof (rule acyclicI, intro allI notI)
    fix x assume x: "(x, x) \<in> ?EW\<^sup>+"
    have sub: "?EW \<subseteq> E" by auto
    from x have "(x, x) \<in> E\<^sup>+" using trancl_mono [OF _ sub] by blast
    then have "x \<in> blocked E" by (auto simp: blocked_def)
    moreover from x obtain y where "(y, x) \<in> ?EW" by (auto elim: tranclE)
    ultimately show False by simp
  qed
  with finEW have "wf ?EW" by (rule finite_acyclic_wf)
  then have "i \<in> set K \<longrightarrow> i \<notin> blocked E \<longrightarrow> i \<in> set res"
  proof (induction i rule: wf_induct_rule)
    case (less i)
    show ?case
    proof (intro impI)
      assume iK: "i \<in> set K" and nb: "i \<notin> blocked E"
      have "set (D i) \<subseteq> set res"
      proof
        fix d assume d: "d \<in> set (D i)"
        with E iK have e: "(d, i) \<in> E" by simp
        from d inK iK have dK: "d \<in> set K" by auto
        have "d \<notin> blocked E"
        proof
          assume "d \<in> blocked E"
          then obtain c where "(c, c) \<in> E\<^sup>+" "(c, d) \<in> E\<^sup>*" by (auto simp: blocked_def)
          with e have "i \<in> blocked E" by (auto simp: blocked_def intro: rtrancl_into_rtrancl)
          with nb show False by simp
        qed
        with less.IH [of d] e nb dK show "d \<in> set res" by simp
      qed
      with fin iK show "i \<in> set res" unfolding kahn_final_def by blast
    qed
  qed
  with iK nb show "i \<in> set res" by simp
qed




lemma topologicalSort_Inr:
  assumes dK: "distinct (map fst rs)" and ok: "topologicalSort rs = Inr order"
  shows "array_form rs \<and> deps_exist rs \<and> kahn_final (map fst rs) (deps_at rs) order
       \<and> set order = set (map fst rs)"
proof -
  let ?K = "map fst rs"
  let ?g0 = "map (\<lambda>i. (i, [])) ?K :: graph" and ?d0 = "map (\<lambda>i. (i, 0)) ?K :: in_degree"
  have "\<exists>st. build_edges rs (?g0, ?d0) = Inr st"
  proof (cases "build_edges rs (?g0, ?d0)")
    case (Inl e)
    then have "topologicalSort rs = Inl e"
      by (simp only: topologicalSort_def Let_def sum.case)
    with ok show ?thesis by simp
  qed simp
  then obtain st where b: "build_edges rs (?g0, ?d0) = Inr st" ..
  obtain g deg where st: "st = (g, deg)" by (cases st)
  from build_edges_Inr [OF b [unfolded st]]
  have af: "array_form rs" and sub: "\<forall>p\<in>set rs. set (deps_of (snd p)) \<subseteq> fst ` set ?g0"
    by blast+
  have "fst ` set ?g0 = set ?K" by (simp add: image_image)
  with sub have de: "deps_exist rs" by (auto simp: deps_exist_def list_all_iff)
  from topologicalSort_run [OF dK af de] obtain res where
    fin: "kahn_final ?K (deps_at rs) res"
    and ts: "topologicalSort rs =
          (if length res \<noteq> length rs
           then Inl (CircularDependency (filter (\<lambda>i. i \<notin> set res) ?K))
           else Inr res)"
    by blast
  from ts ok have len: "length res = length rs" and eq: "res = order"
    by (auto split: if_splits)
  from fin have "distinct res" "set res \<subseteq> set ?K" unfolding kahn_final_def by blast+
  with len have "set res = set ?K"
    by (metis card_subset_eq distinct_card List.finite_set length_map dK)
  with af de fin eq show ?thesis by simp
qed

lemma not_blocked_acyclic: "acyclic E \<Longrightarrow> blocked E = {}"
  by (auto simp: blocked_def acyclic_def)

lemma blocked_cycle: "\<not> acyclic E \<Longrightarrow> \<exists>c. c \<in> blocked E \<and> (\<exists>y. (y, c) \<in> E)"
proof -
  assume "\<not> acyclic E"
  then obtain c where c: "(c, c) \<in> E\<^sup>+" by (auto simp: acyclic_def)
  then have "c \<in> blocked E" by (auto simp: blocked_def)
  moreover from c obtain y where "(y, c) \<in> E" by (auto elim: tranclE)
  ultimately show ?thesis by blast
qed

lemma deps_exist_at:
  assumes "distinct (map fst rs)" and "deps_exist rs"
  shows "\<forall>i\<in>set (map fst rs). set (deps_at rs i) \<subseteq> set (map fst rs)"
proof
  fix i assume "i \<in> set (map fst rs)"
  then obtain r where ir: "(i, r) \<in> set rs" by auto
  with assms(2) have "set (deps_of r) \<subseteq> set (map fst rs)"
    by (auto simp: deps_exist_def list_all_iff)
  with deps_at_member [OF assms(1) ir] show "set (deps_at rs i) \<subseteq> set (map fst rs)" by simp
qed

lemma topologicalSort_outcome:
  assumes dK: "distinct (map fst rs)" and af: "array_form rs" and de: "deps_exist rs"
  shows "\<exists>res. kahn_final (map fst rs) (deps_at rs) res
      \<and> set res = {i \<in> set (map fst rs). i \<notin> blocked (dep_edges rs)}
      \<and> topologicalSort rs =
          (if acyclic (dep_edges rs) then Inr res
           else Inl (CircularDependency
                  (filter (\<lambda>i. i \<in> blocked (dep_edges rs)) (map fst rs))))"
proof -
  let ?K = "map fst rs" and ?E = "dep_edges rs"
  from topologicalSort_run [OF dK af de] obtain res where
    fin: "kahn_final ?K (deps_at rs) res"
    and ts: "topologicalSort rs =
          (if length res \<noteq> length rs
           then Inl (CircularDependency (filter (\<lambda>i. i \<notin> set res) ?K))
           else Inr res)"
    by blast
  have E: "((d, i) \<in> ?E) = (i \<in> set ?K \<and> d \<in> set (deps_at rs i))" for d i
    using dep_edges_iff [OF dK] by simp
  from kahn_final_set [OF fin E deps_exist_at [OF dK de]]
  have sr: "set res = {i \<in> set ?K. i \<notin> blocked ?E}" .
  from fin have dr: "distinct res" unfolding kahn_final_def by blast
  have len: "(length res = length rs) = acyclic ?E"
  proof
    assume "acyclic ?E"
    with sr have "set res = set ?K" by (simp add: not_blocked_acyclic)
    with dr dK have "length res = length ?K" by (metis distinct_card)
    then show "length res = length rs" by simp
  next
    assume l: "length res = length rs"
    show "acyclic ?E"
    proof (rule ccontr)
      assume "\<not> acyclic ?E"
      from blocked_cycle [OF this] obtain c y where c: "c \<in> blocked ?E" and "(y, c) \<in> ?E"
        by blast
      with E have cK: "c \<in> set ?K" by simp
      from sr have "set res \<subseteq> set ?K" by auto
      with l dr dK have "set res = set ?K"
        by (metis card_subset_eq distinct_card List.finite_set length_map)
      with sr c cK show False by auto
    qed
  qed
  have "filter (\<lambda>i. i \<notin> set res) ?K = filter (\<lambda>i. i \<in> blocked ?E) ?K"
    by (rule filter_cong [OF refl]) (simp add: sr)
  with ts len have "topologicalSort rs =
          (if acyclic ?E then Inr res
           else Inl (CircularDependency (filter (\<lambda>i. i \<in> blocked ?E) ?K)))"
    by (simp split: if_splits)
  with fin sr show ?thesis by blast
qed





text \<open>
  Ids made ready by different steps of the loop keep the order in which they were
  made ready, the queue being first-in first-out: \<open>d\<close> is made ready by \<open>a\<close> and
  \<open>c\<close> by \<open>b\<close>, so \<open>d\<close> comes before \<open>c\<close> although \<open>c\<close> is declared first and
  both have depth 1.
\<close>

lemma crossing_order: "topologicalSort crossing = Inr [''a'', ''b'', ''d'', ''c'']"
  by code_simp

subsection \<open>Graph errors of the start pass\<close>

lemma build_edges_cong:
  "\<forall>p\<in>set cfg. dependencies (F p) = dependencies (snd p) \<Longrightarrow>
   build_edges (map (\<lambda>p. (fst p, F p)) cfg) st = build_edges cfg st"
proof (induction cfg arbitrary: st)
  case Nil
  show ?case by simp
next
  case (Cons p cfg)
  then show ?case by (cases p) (simp split: sum.splits)
qed

lemma topologicalSort_cong:
  assumes "\<forall>p\<in>set cfg. dependencies (F p) = dependencies (snd p)"
  shows "topologicalSort (map (\<lambda>p. (fst p, F p)) cfg) = topologicalSort cfg"
  unfolding topologicalSort_def build_edges_cong [OF assms] map_map comp_def fst_conv ..

lemma dependencies_as_resource [simp]: "dependencies (as_resource st inst c) = dependencies c"
  by (simp add: as_resource_def)

lemma topologicalSort_fails:
  assumes "distinct (map fst rs)"
    and "\<not> (array_form rs \<and> deps_exist rs \<and> acyclic (dep_edges rs))"
  shows "\<exists>e. topologicalSort rs = Inl e"
proof (cases "topologicalSort rs")
  case (Inr order)
  from topologicalSort_Inr [OF assms(1) Inr] have af: "array_form rs" and de: "deps_exist rs"
    by simp_all
  from topologicalSort_outcome [OF assms(1) af de] Inr have "acyclic (dep_edges rs)"
    by (auto split: if_splits)
  with af de assms(2) show ?thesis by simp
qed simp

lemma topologicalSort_missing:
  assumes "array_form rs" and "\<not> deps_exist rs"
  shows "\<exists>i r d. (i, r) \<in> set rs \<and> d \<in> set (deps_of r) \<and> d \<notin> set (map fst rs)
           \<and> topologicalSort rs = Inl (absent_dependency i d)"
proof -
  let ?K = "map fst rs"
  let ?g0 = "map (\<lambda>i. (i, [])) ?K :: graph" and ?d0 = "map (\<lambda>i. (i, 0)) ?K :: in_degree"
  have k: "fst ` set ?g0 = set ?K" by (simp add: image_image)
  from assms(2) have "\<not> (\<forall>p\<in>set rs. set (deps_of (snd p)) \<subseteq> fst ` set ?g0)"
    unfolding k by (auto simp: deps_exist_def list_all_iff)
  from build_edges_missing [OF assms(1) this, of ?d0] obtain i r d where
    "(i, r) \<in> set rs" "d \<in> set (deps_of r)" "d \<notin> fst ` set ?g0"
    and b: "build_edges rs (?g0, ?d0) = Inl (absent_dependency i d)"
    by blast
  moreover from b have "topologicalSort rs = Inl (absent_dependency i d)"
    by (simp only: topologicalSort_def Let_def sum.case)
  ultimately show ?thesis unfolding k by blast
qed

lemma topologicalSort_cycle:
  assumes "distinct (map fst rs)" and "array_form rs" and "deps_exist rs"
    and "\<not> acyclic (dep_edges rs)"
  shows "topologicalSort rs
           = Inl (CircularDependency (filter (\<lambda>i. i \<in> blocked (dep_edges rs)) (map fst rs)))
       \<and> filter (\<lambda>i. i \<in> blocked (dep_edges rs)) (map fst rs) \<noteq> []"
proof -
  from topologicalSort_outcome [OF assms(1-3)] assms(4)
  have ts: "topologicalSort rs
      = Inl (CircularDependency (filter (\<lambda>i. i \<in> blocked (dep_edges rs)) (map fst rs)))"
    by auto
  from blocked_cycle [OF assms(4)] obtain c y where
    c: "c \<in> blocked (dep_edges rs)" and "(y, c) \<in> dep_edges rs" by blast
  with dep_edges_iff [OF assms(1)] have "c \<in> set (map fst rs)" by simp
  with c have "c \<in> set (filter (\<lambda>i. i \<in> blocked (dep_edges rs)) (map fst rs))" by simp
  then have "filter (\<lambda>i. i \<in> blocked (dep_edges rs)) (map fst rs) \<noteq> []"
    by (metis empty_iff list.set(1))
  with ts show ?thesis by simp
qed

lemma startSystem_sort_error:
  assumes "topologicalSort config = Inl e"
  shows "startSystem config = Inl (e, [])"
proof -
  have "topologicalSort (map (\<lambda>p. (fst p, as_resource Stopped JUndefined (snd p))) config)
      = Inl e"
    using assms by (simp add: topologicalSort_cong)
  then show ?thesis by (simp only: startSystem_def Let_def sum.case)
qed

text \<open>
  Graph errors in general. For a configuration with distinct ids, a dependency id that
  is no id of the configuration or a cycle among the dependencies makes the start pass
  throw: the outcome is the error with no call made, and there is no result. When the
  dependencies are arrays and one of them names a missing id, the error comes from a
  resource \<open>i\<close> of the configuration and an id \<open>d\<close> that \<open>i\<close> declares and the
  configuration lacks: the missing-dependency error of \<open>i\<close> and \<open>d\<close>, unless \<open>d\<close> is
  a name inherited from \<open>Object.prototype\<close>, for which it is a \<open>TypeError\<close>. When all
  ids exist and there is a cycle, the error is the circular-dependency error that
  lists, in declaration order, the ids that can never become ready: those on a cycle or
  depending on one.
\<close>

lemma startSystem_graph_error:
  assumes "distinct (map fst config)"
  shows "(\<not> deps_exist config \<or> \<not> acyclic (dep_edges config)
            \<longrightarrow> (\<exists>e. startSystem config = Inl (e, [])))
       \<and> (array_form config \<and> \<not> deps_exist config
            \<longrightarrow> (\<exists>i r d. (i, r) \<in> set config \<and> d \<in> set (deps_of r)
                   \<and> d \<notin> set (map fst config)
                   \<and> startSystem config
                       = Inl (if d \<in> set object_prototype_names
                              then TypeError ''graph[depId].push is not a function''
                              else MissingDependency i d, [])))
       \<and> (array_form config \<and> deps_exist config \<and> \<not> acyclic (dep_edges config)
            \<longrightarrow> filter (\<lambda>i. i \<in> blocked (dep_edges config)) (map fst config) \<noteq> []
                \<and> startSystem config
                    = Inl (CircularDependency
                             (filter (\<lambda>i. i \<in> blocked (dep_edges config)) (map fst config)), []))"
proof (intro conjI impI)
  assume "\<not> deps_exist config \<or> \<not> acyclic (dep_edges config)"
  then have "\<not> (array_form config \<and> deps_exist config \<and> acyclic (dep_edges config))" by blast
  from topologicalSort_fails [OF assms this] obtain e where "topologicalSort config = Inl e" ..
  from startSystem_sort_error [OF this] show "\<exists>e. startSystem config = Inl (e, [])" ..
next
  assume "array_form config \<and> \<not> deps_exist config"
  then have "array_form config" "\<not> deps_exist config" by simp_all
  from topologicalSort_missing [OF this] obtain i r d where
    "(i, r) \<in> set config" "d \<in> set (deps_of r)" "d \<notin> set (map fst config)"
    "topologicalSort config = Inl (absent_dependency i d)"
    by blast
  with startSystem_sort_error [of config "absent_dependency i d"]
  show "\<exists>i r d. (i, r) \<in> set config \<and> d \<in> set (deps_of r) \<and> d \<notin> set (map fst config)
          \<and> startSystem config
              = Inl (if d \<in> set object_prototype_names
                     then TypeError ''graph[depId].push is not a function''
                     else MissingDependency i d, [])"
    unfolding absent_dependency_def by blast
next
  assume a: "array_form config \<and> deps_exist config \<and> \<not> acyclic (dep_edges config)"
  with topologicalSort_cycle [OF assms, of] 
  show "filter (\<lambda>i. i \<in> blocked (dep_edges config)) (map fst config) \<noteq> []" by blast
  from a topologicalSort_cycle [OF assms]
  have "topologicalSort config
      = Inl (CircularDependency (filter (\<lambda>i. i \<in> blocked (dep_edges config)) (map fst config)))"
    by blast
  from startSystem_sort_error [OF this]
  show "startSystem config
      = Inl (CircularDependency
               (filter (\<lambda>i. i \<in> blocked (dep_edges config)) (map fst config)), [])" .
qed

lemma missing_example_sort: "topologicalSort missing_example = Inl (MissingDependency ''a'' ''x'')"
  by code_simp

lemma cycle_example_sort:
  "topologicalSort cycle_example = Inl (CircularDependency [''a'', ''b'', ''d''])"
  by code_simp

text \<open>
  A resource that requires an id the configuration lacks, and a configuration in which
  \<open>a\<close> and \<open>b\<close> require each other, \<open>d\<close> requires \<open>a\<close>, and \<open>c\<close> is free: the
  errors, and their texts.
\<close>

lemma startSystem_graph_error_examples:
  "startSystem missing_example = Inl (MissingDependency ''a'' ''x'', [])
   \<and> startSystem cycle_example = Inl (CircularDependency [''a'', ''b'', ''d''], [])
   \<and> message (MissingDependency ''a'' ''x'')
       = ''Resource '' @ [CHR 0x22] @ ''a'' @ [CHR 0x22] @ '' depends on '' @ [CHR 0x22] @ ''x''
         @ [CHR 0x22] @ '' which doesn'' @ [CHR 0x27] @ ''t exist in the system config''
   \<and> message (CircularDependency [''a'', ''b'', ''d''])
       = ''Circular dependency detected in resource system. Unprocessed resources: a, b, d''"
  using startSystem_sort_error [OF missing_example_sort]
    startSystem_sort_error [OF cycle_example_sort]
  by (simp add: quoted_def)

text \<open>
  C4 (the code departs from the claim). The test for a missing dependency reads
  \<open>graph[depId]\<close> on a plain object, so a missing id that \<open>Object.prototype\<close> defines
  is not seen as missing: for a resource \<open>a\<close> that requires \<open>toString\<close> in a
  configuration without such a resource, the sorter throws the \<open>TypeError\<close> of
  \<open>graph[depId].push\<close>, whose text names neither \<open>a\<close> nor \<open>toString\<close>. The pass
  still throws before any operation is invoked. An id that is not inherited, as \<open>x\<close>
  in \<open>missing_example\<close>, gives the error whose text names the resource and the id.
\<close>

theorem startSystem_inherited_dependency_name:
  "deps_exist inherited_name = False
   \<and> map_sum (\<lambda>e. (fst e, message (fst e), snd e)) (\<lambda>r. ()) (startSystem inherited_name)
       = Inl (TypeError ''graph[depId].push is not a function'',
              ''graph[depId].push is not a function'', [])
   \<and> map_sum (\<lambda>e. (fst e, message (fst e), snd e)) (\<lambda>r. ()) (startSystem missing_example)
       = Inl (MissingDependency ''a'' ''x'',
              ''Resource '' @ [CHR 0x22] @ ''a'' @ [CHR 0x22] @ '' depends on '' @ [CHR 0x22]
                @ ''x'' @ [CHR 0x22] @ '' which doesn'' @ [CHR 0x27]
                @ ''t exist in the system config'', [])"
  by code_simp

subsection \<open>The topology builder: depths and layers\<close>
























subsection \<open>The halt pass\<close>











subsection \<open>Shutdown order\<close>
















subsection \<open>The start loop on failed dependencies, the object form and falsy assertion errors\<close>

lemma start_step_assert_throws:
  assumes "assert r = Some f"
    and "resolveDependencies (r\<lparr>r_status := Starting\<rparr>) (started s) = Inr deps"
    and "f deps = Throws e" and "truthy e"
  shows "start_step i r s =
           \<lparr>resources =
              AList.update i (r\<lparr>r_status := Failed, r_error := invalid_dependencies i e\<rparr>)
                (resources s),
            started = AList.update i JUndefined (started s),
            errors = AList.update i (invalid_dependencies i e) (errors s),
            calls = calls s @ [AssertCall i deps]\<rparr>"
  using assms by (simp add: start_step_def start_failed_def Let_def)























text \<open>
  C8 (the code departs from the claim). Whether the assertion threw is decided by
  the truthiness of the value it threw: an assertion that throws a falsy value is
  taken to have passed. The start operation of \<open>a\<close> is invoked after its assertion
  threw \<open>undefined\<close>, \<open>a\<close> ends started, and the error mapping is empty.
\<close>

theorem startSystem_falsy_assertion_starts:
  "map_sum id (\<lambda>r. (started r, errors r, calls r, statuses r))
     (startSystem falsy_assert)
   = Inr ([(''a'', JStr ''ran'')],
          [],
          [AssertCall ''a'' [], StartCall ''a'' []],
          [(''a'', Started)])"
  by code_simp

end
